theory Spec2Isabelle
  imports Complex_Main "HOL-Library.AList" "HOL-Library.Char_ord" "HOL-Library.List_Lexorder"
begin

section \<open>Python values and exceptions\<close>

text \<open>
  The samples handed to \<^verbatim>\<open>StockBERTClassifier._convert_X\<close> are Python objects: nested
  lists whose leaves are numbers. A leaf is a \<^verbatim>\<open>float\<close> or an \<^verbatim>\<open>int\<close>; the code only
  tests leaves with \<^verbatim>\<open>isinstance(_, float)\<close> and copies them, it never computes with
  them, so the payload of a float is kept as a real number.
\<close>

datatype pyval = PFloat real | PInt int | PList "pyval list"

text \<open>
  The exceptions the encoding code can raise. \<open>WrongInputFormat sample e\<close> is the
  \<^verbatim>\<open>ValueError\<close> of lines 88-92, whose message is
  \<^verbatim>\<open>"Wrong input format (%s): %s. An example: `X_tokenized = [[[0.0023, -0.0001, 0.0015, ...], ...], ...]`" % (sample, e)\<close>:
  it carries the offending sample and the exception caught, and its text always holds
  the literal example. An \<open>AssertionError\<close> carries the message of its \<^verbatim>\<open>assert\<close>.
  \<open>ValueError msg\<close> is any other \<^verbatim>\<open>ValueError\<close>, raised by a library call, with its
  message.
\<close>

datatype pyexc =
    AssertionError string
  | IndexError
  | TypeError
  | WrongInputFormat pyval pyexc
  | ValueError string

fun is_list :: "pyval \<Rightarrow> bool" where
  "is_list (PList _) = True"
| "is_list _ = False"

fun is_float :: "pyval \<Rightarrow> bool" where
  "is_float (PFloat _) = True"
| "is_float _ = False"

text \<open>\<^verbatim>\<open>x[0]\<close>: the first element of a list, \<^verbatim>\<open>IndexError\<close> on the empty list,
  \<^verbatim>\<open>TypeError\<close> on a number (not subscriptable).\<close>

fun getitem0 :: "pyval \<Rightarrow> pyexc + pyval" where
  "getitem0 (PList (v # _)) = Inr v"
| "getitem0 (PList []) = Inl IndexError"
| "getitem0 _ = Inl TypeError"

text \<open>\<^verbatim>\<open>len(x)\<close>: defined on lists only.\<close>

fun py_len :: "pyval \<Rightarrow> pyexc + int" where
  "py_len (PList vs) = Inr (int (length vs))"
| "py_len _ = Inl TypeError"

section \<open>The classifier module\<close>

text \<open>Labels are hashable Python values; integers and strings are modelled.\<close>

datatype label = LInt int | LStr string

text \<open>The two truncation policies the specification names for \<^verbatim>\<open>truncate_method\<close>.\<close>

datatype truncate_method = LIFO | FIFO

text \<open>
  The attributes of \<^verbatim>\<open>StockBERTClassifier\<close> that the encoding methods read or write.
  \<open>label_size\<close>, \<open>id_to_label\<close> and \<open>label_to_id\<close> may be \<^verbatim>\<open>None\<close>. The dictionary
  \<open>label_to_id\<close> is an association list in insertion order, as a Python \<^verbatim>\<open>dict\<close> is.
\<close>

record module =
  max_seq_length :: int
  max_unit_length :: int
  truncate_method :: truncate_method
  label_size :: "nat option"
  id_to_label :: "label list option"
  label_to_id :: "(label \<times> nat) list option"
  batch_size :: int
  gpu_ids :: "nat list"

section \<open>Encoding of samples: \<^verbatim>\<open>_convert_x\<close> and \<^verbatim>\<open>_convert_X\<close>\<close>

text \<open>
  \<^verbatim>\<open>_convert_x\<close> (lines 117-119):
  \<^verbatim>\<open>assert isinstance(x[0], list) and isinstance(x[0][0], float); return copy.deepcopy(x)\<close>.
  The conjunction is short-circuit: \<^verbatim>\<open>x[0][0]\<close> is read only when \<^verbatim>\<open>x[0]\<close> is a list.
  On values without identity the deep copy is the value itself.
\<close>

definition convert_x :: "pyval \<Rightarrow> pyexc + pyval" where
  "convert_x x =
     (case getitem0 x of
        Inl e \<Rightarrow> Inl e
      | Inr x0 \<Rightarrow>
          if \<not> is_list x0 then Inl (AssertionError [])
          else (case getitem0 x0 of
                  Inl e \<Rightarrow> Inl e
                | Inr x00 \<Rightarrow>
                    if \<not> is_float x00 then Inl (AssertionError []) else Inr x))"

text \<open>The first loop of \<^verbatim>\<open>_convert_X\<close> (lines 83-92): every sample goes through
  \<^verbatim>\<open>_convert_x\<close>; the first exception is re-raised as the \<^verbatim>\<open>ValueError\<close> naming
  the sample.\<close>

fun convert_samples :: "pyval list \<Rightarrow> pyexc + pyval list" where
  "convert_samples [] = Inr []"
| "convert_samples (sample # rest) =
     (case convert_x sample of
        Inl e \<Rightarrow> Inl (WrongInputFormat sample e)
      | Inr c \<Rightarrow>
          (case convert_samples rest of
             Inl e \<Rightarrow> Inl e
           | Inr cs \<Rightarrow> Inr (c # cs)))"

text \<open>
  Modelled from the spec: \<^verbatim>\<open>com.truncate_segments\<close> is not among the sources. The
  specification (4.1, 8) says: excess units beyond the limit are removed according to
  \<^verbatim>\<open>truncate_method\<close>; LIFO keeps the most recent units (drops the earliest), FIFO
  keeps the earliest (drops the latest); a sample within the limit is left as it is.
  The call site passes the single segment list of one sample, which the function
  changes in place; the model returns the changed list.
\<close>

definition truncate_segments :: "'a list \<Rightarrow> int \<Rightarrow> truncate_method \<Rightarrow> 'a list" where
  "truncate_segments segments limit method =
     (if int (length segments) \<le> limit then segments
      else (case method of
              LIFO \<Rightarrow> drop (length segments - nat limit) segments
            | FIFO \<Rightarrow> take (nat limit) segments))"

definition unit_length_msg :: string where
  "unit_length_msg = ''`max_unit_length` must be equal to the input length of each time spot.''"

text \<open>Lines 101-104: every unit left after truncation is checked for its length and
  appended to \<^verbatim>\<open>_input_values\<close>, with a \<open>1\<close> appended to \<^verbatim>\<open>_input_mask\<close>.\<close>

fun append_units :: "int \<Rightarrow> pyval list \<Rightarrow> pyval list \<times> int list \<Rightarrow> pyexc + pyval list \<times> int list" where
  "append_units mul [] (ivals, imask) = Inr (ivals, imask)"
| "append_units mul (segment # rest) (ivals, imask) =
     (case py_len segment of
        Inl e \<Rightarrow> Inl e
      | Inr n \<Rightarrow>
          if n \<noteq> mul then Inl (AssertionError unit_length_msg)
          else append_units mul rest (ivals @ [segment], imask @ [1]))"

text \<open>\<^verbatim>\<open>[0] * self.max_unit_length\<close>: a row of integer zeros, empty for a
  non-positive length.\<close>

definition zero_row :: "int \<Rightarrow> pyval" where
  "zero_row mul = PList (replicate (nat mul) (PInt 0))"

text \<open>Lines 108-110: the padding loop; its count is fixed when the loop starts.\<close>

fun padding :: "nat \<Rightarrow> int \<Rightarrow> pyval list \<times> int list \<Rightarrow> pyval list \<times> int list" where
  "padding 0 mul (ivals, imask) = (ivals, imask)"
| "padding (Suc n) mul (ivals, imask) = padding n mul (ivals @ [zero_row mul], imask @ [0])"

text \<open>The body of the second loop (lines 97-110) for one copied sample.\<close>

definition encode_segments :: "module \<Rightarrow> pyval \<Rightarrow> pyexc + pyval list \<times> int list" where
  "encode_segments m segments =
     (case segments of
        PList units \<Rightarrow>
          (case append_units (max_unit_length m)
                  (truncate_segments units (max_seq_length m - 1) (truncate_method m)) ([], []) of
             Inl e \<Rightarrow> Inl e
           | Inr (ivals, imask) \<Rightarrow>
               Inr (padding (nat (max_seq_length m - 1 - int (length ivals))) (max_unit_length m)
                      (ivals, imask @ [1])))
      | _ \<Rightarrow> Inl TypeError)"

text \<open>The second loop (lines 94-113), collecting \<^verbatim>\<open>input_values\<close> and \<^verbatim>\<open>input_mask\<close>.\<close>

fun encode_all :: "module \<Rightarrow> pyval list \<Rightarrow> pyexc + pyval list list \<times> int list list" where
  "encode_all m [] = Inr ([], [])"
| "encode_all m (segments # rest) =
     (case encode_segments m segments of
        Inl e \<Rightarrow> Inl e
      | Inr (ivals, imask) \<Rightarrow>
          (case encode_all m rest of
             Inl e \<Rightarrow> Inl e
           | Inr (vs, ms) \<Rightarrow> Inr (ivals # vs, imask # ms)))"

text \<open>\<^verbatim>\<open>_convert_X\<close> (lines 80-115): both loops in sequence; an exception leaves no
  result at all.\<close>

definition convert_X :: "module \<Rightarrow> pyval list \<Rightarrow> pyexc + pyval list list \<times> int list list" where
  "convert_X m X_target =
     (case convert_samples X_target of
        Inl e \<Rightarrow> Inl e
      | Inr segment_input_values \<Rightarrow> encode_all m segment_input_values)"

section \<open>Construction and well-formed samples\<close>

text \<open>
  \<^verbatim>\<open>__init__\<close> (lines 20-43) stores its arguments. The vocabulary attributes
  \<^verbatim>\<open>_id_to_label\<close> and \<^verbatim>\<open>_label_to_id\<close>, \<^verbatim>\<open>batch_size\<close> and \<^verbatim>\<open>_gpu_ids\<close> belong to
  the base classes, which are not among the sources: a new module has no vocabulary yet,
  and the batch size and the workers are given.
\<close>

definition new_module :: "int \<Rightarrow> int \<Rightarrow> nat option \<Rightarrow> truncate_method \<Rightarrow> int \<Rightarrow> nat list \<Rightarrow> module" where
  "new_module msl mul ls tm bs gpus =
     \<lparr>max_seq_length = msl, max_unit_length = mul, truncate_method = tm, label_size = ls,
      id_to_label = None, label_to_id = None, batch_size = bs, gpu_ids = gpus\<rparr>"

text \<open>
  A well-formed sample (specification, 3 and 4.1): a list of at least one unit, every unit
  a vector of exactly \<^verbatim>\<open>max_unit_length\<close> floats. A unit holds at least one number, as
  \<^verbatim>\<open>_convert_x\<close> reads \<^verbatim>\<open>x[0][0]\<close>.
\<close>

fun is_unit :: "int \<Rightarrow> pyval \<Rightarrow> bool" where
  "is_unit mul (PList fs) = (fs \<noteq> [] \<and> list_all is_float fs \<and> int (length fs) = mul)"
| "is_unit mul _ = False"

fun units_of :: "pyval \<Rightarrow> pyval list" where
  "units_of (PList us) = us"
| "units_of _ = []"

fun well_formed :: "int \<Rightarrow> pyval \<Rightarrow> bool" where
  "well_formed mul (PList us) = (us \<noteq> [] \<and> list_all (is_unit mul) us)"
| "well_formed mul _ = False"


section \<open>Encoding of labels: \<^verbatim>\<open>_convert_y\<close>\<close>

text \<open>
  \<^verbatim>\<open>sorted(self._id_to_label)\<close> (line 136) compares the labels with \<^verbatim>\<open><\<close>. Integers
  compare by value and strings lexicographically by code point; comparing an integer with
  a string raises \<^verbatim>\<open>TypeError\<close>, which any comparison sort meets as soon as the list
  holds both kinds. \<open>py_sorted\<close> is \<open>None\<close> in that case.
\<close>

fun is_LInt :: "label \<Rightarrow> bool" where
  "is_LInt (LInt _) = True"
| "is_LInt _ = False"

fun is_LStr :: "label \<Rightarrow> bool" where
  "is_LStr (LStr _) = True"
| "is_LStr _ = False"

fun int_of :: "label \<Rightarrow> int" where
  "int_of (LInt i) = i"
| "int_of _ = 0"

fun str_of :: "label \<Rightarrow> string" where
  "str_of (LStr s) = s"
| "str_of _ = []"

definition py_sorted :: "label list \<Rightarrow> label list option" where
  "py_sorted ls =
     (if list_all is_LInt ls then Some (map LInt (sort (map int_of ls)))
      else if list_all is_LStr ls then Some (map LStr (sort (map str_of ls)))
      else None)"

text \<open>Line 142: \<^verbatim>\<open>{label: index for index, label in enumerate(self._id_to_label)}\<close>;
  \<open>AList.update\<close> is the assignment \<^verbatim>\<open>d[label] = index\<close> of a Python dictionary.\<close>

definition enumerate_dict :: "label list \<Rightarrow> (label \<times> nat) list" where
  "enumerate_dict labels =
     fold (\<lambda>(index, label) d. AList.update label index d) (List.enumerate 0 labels) []"

text \<open>The messages of the assertions of lines 126 and 147.\<close>

definition unique_y_msg :: string where
  "unique_y_msg = ''Number of unique `y`s exceeds `label_size`.''"

definition unique_labels_msg :: string where
  "unique_labels_msg = ''Number of unique labels exceeds `label_size`.''"

text \<open>
  The loop of lines 144-150 over the labels of \<^verbatim>\<open>y\<close>. \<open>cap\<close> is
  \<^verbatim>\<open>self.label_size\<close>, \<open>d\<close> is \<^verbatim>\<open>self._label_to_id\<close> and \<open>itl\<close> is
  \<^verbatim>\<open>self._id_to_label\<close>. When the assertion of line 147 fails, the labels admitted
  before it stay in the vocabulary: the state reached is returned with the exception.
\<close>

fun label_loop ::
  "nat \<Rightarrow> label list \<Rightarrow> (label \<times> nat) list \<Rightarrow> label list \<Rightarrow> nat list
    \<Rightarrow> (pyexc + nat list) \<times> (label \<times> nat) list \<times> label list" where
  "label_loop cap [] d itl label_ids = (Inr label_ids, d, itl)"
| "label_loop cap (label # rest) d itl label_ids =
     (case map_of d label of
        Some i \<Rightarrow> label_loop cap rest d itl (label_ids @ [i])
      | None \<Rightarrow>
          if length d < cap
          then label_loop cap rest (AList.update label (length d) d) (itl @ [label])
                 (label_ids @ [length d])
          else (Inl (AssertionError unique_labels_msg), d, itl))"

text \<open>\<^verbatim>\<open>if self.label_size:\<close> (line 125) is false for \<^verbatim>\<open>None\<close> and for \<open>0\<close>;
  \<open>capacity\<close> reads the attribute as a number, \<open>0\<close> standing for both.
  \<^verbatim>\<open>not self._id_to_label\<close> (lines 131, 141) is true for \<^verbatim>\<open>None\<close> and for an empty
  container.\<close>

fun capacity :: "nat option \<Rightarrow> nat" where
  "capacity None = 0"
| "capacity (Some c) = c"

fun falsy_list :: "'a list option \<Rightarrow> bool" where
  "falsy_list None = True"
| "falsy_list (Some xs) = (xs = [])"

fun list_of :: "'a list option \<Rightarrow> 'a list" where
  "list_of None = []"
| "list_of (Some xs) = xs"

text \<open>
  Lines 132-138: \<^verbatim>\<open>list(label_set)\<close>, replaced by its sorted copy unless sorting
  raises. The order in which Python iterates a \<^verbatim>\<open>set\<close> depends on the hashes of its
  elements (randomised per process for strings) and is not the order of insertion. It is a
  parameter of the model: \<open>set_list y\<close> stands for \<^verbatim>\<open>list(set(y))\<close>, and all that is known
  of it is that it lists each distinct label of \<open>y\<close> once.
\<close>

definition label_order :: "(label list \<Rightarrow> label list) \<Rightarrow> label list \<Rightarrow> label list" where
  "label_order set_list y = (case py_sorted (set_list y) of Some s \<Rightarrow> s | None \<Rightarrow> set_list y)"

text \<open>
  \<^verbatim>\<open>_convert_y\<close> (lines 121-151). \<^verbatim>\<open>len(label_set)\<close> is the number of distinct labels,
  \<open>length (remdups y)\<close>. The result is the list of ids or the exception raised, together
  with the module as the call leaves it.
\<close>

definition convert_y :: "(label list \<Rightarrow> label list) \<Rightarrow> module \<Rightarrow> label list \<Rightarrow> (pyexc + nat list) \<times> module" where
  "convert_y set_list m y =
     (let n = length (remdups y);
          preset = capacity (label_size m)
      in if preset \<noteq> 0 \<and> \<not> n \<le> preset
         then (Inl (AssertionError unique_y_msg), m)
         else
           let cap = (if preset \<noteq> 0 then preset else n);
               itl = (if falsy_list (id_to_label m)
                      then label_order set_list y
                      else list_of (id_to_label m));
               d = (if falsy_list (label_to_id m) then enumerate_dict itl
                    else list_of (label_to_id m));
               (r, d', itl') = label_loop cap y d itl []
           in (r, m\<lparr>label_size := Some cap, id_to_label := Some itl', label_to_id := Some d'\<rparr>))"

text \<open>
  The vocabulary states that calls of \<^verbatim>\<open>_convert_y\<close> reach from a new module: the labels
  of \<^verbatim>\<open>_id_to_label\<close> are distinct, \<^verbatim>\<open>_label_to_id\<close> maps each of them to its index, and
  there are no more of them than \<^verbatim>\<open>label_size\<close> allows.
\<close>

definition vocab_ok :: "module \<Rightarrow> bool" where
  "vocab_ok m =
     (distinct (list_of (id_to_label m))
      \<and> list_of (label_to_id m)
          = zip (list_of (id_to_label m)) [0..<length (list_of (id_to_label m))]
      \<and> length (list_of (id_to_label m)) \<le> capacity (label_size m))"

text \<open>A sequence of calls of \<^verbatim>\<open>_convert_y\<close> on the same module, whether they succeed
  or raise.\<close>

fun run_calls :: "(label list \<Rightarrow> label list) \<Rightarrow> module \<Rightarrow> label list list \<Rightarrow> module" where
  "run_calls set_list m [] = m"
| "run_calls set_list m (y # ys) = run_calls set_list (snd (convert_y set_list m y)) ys"

text \<open>The same, when each call meets its own iteration order of the label set: every
  call is given as the pair of that order and of its labels.\<close>

fun run_calls_with :: "module \<Rightarrow> ((label list \<Rightarrow> label list) \<times> label list) list \<Rightarrow> module" where
  "run_calls_with m [] = m"
| "run_calls_with m ((set_list, y) # calls) = run_calls_with (snd (convert_y set_list m y)) calls"

section \<open>The batch encoder: \<^verbatim>\<open>convert\<close>\<close>

text \<open>
  \<^verbatim>\<open>np.array(_, dtype=_)\<close> (lines 61, 62, 71 and 76) belongs to \<^verbatim>\<open>numpy\<close>, which is
  outside the repository. It is a parameter \<open>np_array\<close> of the model: from a list and
  the element type it gives the array, of a type \<open>'arr\<close> left open, or the exception
  that the call raises. On a ragged list, one whose elements at some depth are not all of
  the same shape, \<^verbatim>\<open>np.array\<close> with a numeric element type raises \<^verbatim>\<open>ValueError\<close>.
\<close>

datatype dtype = float32 | int32

text \<open>The dictionary \<^verbatim>\<open>data\<close> that \<^verbatim>\<open>convert\<close> returns; a key that was not set is
  \<open>None\<close>.\<close>

record 'arr encoded =
  input_values :: "'arr option"
  input_mask :: "'arr option"
  label_ids :: "'arr option"
  sample_weight :: "'arr option"

text \<open>
  Modelled from the spec: \<^verbatim>\<open>_convert_sample_weight\<close> belongs to the base class, which is not
  among the sources. The specification (4.4) says: if the weights are absent, the result
  is \<open>n\<close> copies of \<open>1.0\<close>; if present, their length must equal \<open>n\<close>, else the call
  fails. When no inputs were converted (\<^verbatim>\<open>n_inputs\<close> is \<^verbatim>\<open>None\<close>) there is no \<open>n\<close> to
  meet, and the call fails. The module is not changed.
\<close>

fun convert_sample_weight :: "real list option \<Rightarrow> nat option \<Rightarrow> pyexc + real list" where
  "convert_sample_weight _ None = Inl TypeError"
| "convert_sample_weight None (Some n) = Inr (replicate n 1)"
| "convert_sample_weight (Some ws) (Some n) =
     (if length ws = n then Inr ws else Inl (AssertionError []))"

definition x_not_none_msg :: string where
  "x_not_none_msg = ''`StockBERTClassifier` is a model with continuous input. `X` should be None. Use `X_tokenized` instead.''"

definition y_none_msg :: string where
  "y_none_msg = ''`y` can't be None.''"

definition parallel_msg :: string where
  "parallel_msg = ''Can't parse data on multi-processing when `label_size` is None.''"

text \<open>
  Lines 58-66. Here \<^verbatim>\<open>X\<close> is \<^verbatim>\<open>None\<close> (line 48), so \<^verbatim>\<open>tokenized\<close> is
  \<^verbatim>\<open>X_tokenized\<close> itself: an empty list is false, and then \<^verbatim>\<open>_convert_X\<close> is handed
  \<^verbatim>\<open>X\<close>, that is \<^verbatim>\<open>None\<close>, whose enumeration raises \<^verbatim>\<open>TypeError\<close>. Otherwise the
  batch is encoded, the values and then the masks are converted to arrays (lines 61 and
  62), \<^verbatim>\<open>n_inputs\<close> is read (line 63), and only then the batch size is shrunk when fewer
  inputs came than it holds (lines 65-66): an exception of \<^verbatim>\<open>_convert_X\<close> or of a
  conversion leaves the module as it was. The result holds the two arrays and
  \<^verbatim>\<open>n_inputs\<close>.
\<close>

fun convert_inputs ::
  "(pyval \<Rightarrow> dtype \<Rightarrow> pyexc + 'arr) \<Rightarrow> module \<Rightarrow> pyval list option
    \<Rightarrow> (pyexc + ('arr \<times> 'arr \<times> nat) option) \<times> module" where
  "convert_inputs np_array m None = (Inr None, m)"
| "convert_inputs np_array m (Some []) = (Inl TypeError, m)"
| "convert_inputs np_array m (Some X_tokenized) =
     (case convert_X m X_tokenized of
        Inl e \<Rightarrow> (Inl e, m)
      | Inr (ivals, imask) \<Rightarrow>
          (case np_array (PList (map PList ivals)) float32 of
             Inl e \<Rightarrow> (Inl e, m)
           | Inr values_array \<Rightarrow>
               (case np_array (PList (map (\<lambda>row. PList (map PInt row)) imask)) int32 of
                  Inl e \<Rightarrow> (Inl e, m)
                | Inr mask_array \<Rightarrow>
                    (Inr (Some (values_array, mask_array, length ivals)),
                     if int (length ivals) < batch_size m
                     then m\<lparr>batch_size := max (int (length ivals)) (int (length (gpu_ids m)))\<rparr>
                     else m))))"

text \<open>Lines 69-71: the labels, when given, go through \<^verbatim>\<open>_convert_y\<close>, and the ids are
  converted to an array; \<^verbatim>\<open>_convert_y\<close> has changed the vocabulary by then.\<close>

definition convert_labels ::
  "(pyval \<Rightarrow> dtype \<Rightarrow> pyexc + 'arr) \<Rightarrow> (label list \<Rightarrow> label list) \<Rightarrow> module \<Rightarrow> label list option
    \<Rightarrow> (pyexc + 'arr option) \<times> module" where
  "convert_labels np_array set_list m y =
     (case y of
        None \<Rightarrow> (Inr None, m)
      | Some labels \<Rightarrow>
          (case convert_y set_list m labels of
             (Inl e, m') \<Rightarrow> (Inl e, m')
           | (Inr ids, m') \<Rightarrow>
               (case np_array (PList (map (\<lambda>i. PInt (int i)) ids)) int32 of
                  Inl e \<Rightarrow> (Inl e, m')
                | Inr ids_array \<Rightarrow> (Inr (Some ids_array), m'))))"

text \<open>Lines 74-76: the sample weights, when training or when labels are given, and their
  conversion to an array.\<close>

definition convert_weights ::
  "(pyval \<Rightarrow> dtype \<Rightarrow> pyexc + 'arr) \<Rightarrow> bool \<Rightarrow> label list option \<Rightarrow> real list option \<Rightarrow> nat option
    \<Rightarrow> pyexc + 'arr option" where
  "convert_weights np_array is_training y weights n_inputs =
     (if is_training \<or> y \<noteq> None
      then (case convert_sample_weight weights n_inputs of
              Inl e \<Rightarrow> Inl e
            | Inr ws \<Rightarrow>
                (case np_array (PList (map PFloat ws)) float32 of
                   Inl e \<Rightarrow> Inl e
                 | Inr weights_array \<Rightarrow> Inr (Some weights_array)))
      else Inr None)"

text \<open>
  \<^verbatim>\<open>convert\<close> (lines 45-78). \<^verbatim>\<open>_assert_legal\<close> belongs to the base class, which is not
  among the sources: it is a parameter, a check of the four arguments that returns the
  exception it raises, if any. \<open>set_list\<close> is the iteration order of label sets that
  \<^verbatim>\<open>_convert_y\<close> needs, and \<open>np_array\<close> is \<^verbatim>\<open>np.array\<close>. The result is the dictionary
  or the exception raised, with the module as the call leaves it.
\<close>

definition convert ::
  "(pyval list option \<Rightarrow> label list option \<Rightarrow> real list option \<Rightarrow> pyval list option \<Rightarrow> pyexc option)
    \<Rightarrow> (label list \<Rightarrow> label list) \<Rightarrow> (pyval \<Rightarrow> dtype \<Rightarrow> pyexc + 'arr) \<Rightarrow> module
    \<Rightarrow> pyval list option \<Rightarrow> label list option \<Rightarrow> real list option \<Rightarrow> pyval list option
    \<Rightarrow> bool \<Rightarrow> bool \<Rightarrow> (pyexc + 'arr encoded) \<times> module" where
  "convert assert_legal set_list np_array m X y weights X_tokenized is_training is_parallel =
     (case assert_legal X y weights X_tokenized of
        Some e \<Rightarrow> (Inl e, m)
      | None \<Rightarrow>
          if X \<noteq> None then (Inl (AssertionError x_not_none_msg), m)
          else if is_training \<and> y = None then (Inl (AssertionError y_none_msg), m)
          else if is_parallel \<and> capacity (label_size m) = 0
               then (Inl (AssertionError parallel_msg), m)
          else
            (case convert_inputs np_array m X_tokenized of
               (Inl e, m1) \<Rightarrow> (Inl e, m1)
             | (Inr inputs, m1) \<Rightarrow>
                 (case convert_labels np_array set_list m1 y of
                    (Inl e, m2) \<Rightarrow> (Inl e, m2)
                  | (Inr ids, m2) \<Rightarrow>
                      (case convert_weights np_array is_training y weights
                              (map_option (\<lambda>(values_array, mask_array, n_inputs). n_inputs) inputs) of
                         Inl e \<Rightarrow> (Inl e, m2)
                       | Inr ws \<Rightarrow>
                           (Inr \<lparr>input_values = map_option (\<lambda>(values_array, mask_array, n_inputs). values_array) inputs,
                                 input_mask = map_option (\<lambda>(values_array, mask_array, n_inputs). mask_array) inputs,
                                 label_ids = ids,
                                 sample_weight = ws\<rparr>, m2)))))"

section \<open>Initialization for inference: \<^verbatim>\<open>Initialization.run\<close>\<close>

text \<open>
  The work that a run of the task performs on the session, in order: a full
  initialization of the session, an initialization of the listed variables (each with
  the \<^verbatim>\<open>ignore_checkpoint\<close> flag it was given), or the logged message that every global
  variable is initialized already.
\<close>

datatype init_action =
    InitSession bool
  | InitVariables "string list" bool
  | LogAlreadyInitialized

text \<open>
  The attributes of the module that \<^verbatim>\<open>Initialization.run\<close> reads or writes: the global
  variables of the graph (by name), the variables that hold a value already, whether a
  session has been built, and the session mode. \<open>performed\<close> records the initialization
  work done so far.
\<close>

record session =
  global_variables :: "string list"
  inited_vars :: "string set"
  session_built :: bool
  session_mode :: "string option"
  performed :: "init_action list"

text \<open>
  Modelled from the spec: \<^verbatim>\<open>Task._init_session\<close> is not among the sources. The
  specification (4.6, step 2) says: a full initialization loads the checkpoint unless
  \<^verbatim>\<open>ignore_checkpoint\<close>, else initializes all parameters from scratch; afterwards the
  session is built and every global parameter has a value.
\<close>

definition init_session :: "bool \<Rightarrow> session \<Rightarrow> session" where
  "init_session ignore_checkpoint s =
     s\<lparr>inited_vars := set (global_variables s),
       session_built := True,
       performed := performed s @ [InitSession ignore_checkpoint]\<rparr>"

text \<open>
  Modelled from the spec: \<^verbatim>\<open>Task._init_variables\<close> is not among the sources. The
  specification (4.6, step 3, and 9) says: exactly the given parameters are initialized,
  respecting \<^verbatim>\<open>ignore_checkpoint\<close>, and the session keeps the set of parameters that have
  a value, which these parameters join.
\<close>

definition init_variables :: "string list \<Rightarrow> bool \<Rightarrow> session \<Rightarrow> session" where
  "init_variables variables ignore_checkpoint s =
     s\<lparr>inited_vars := inited_vars s \<union> set variables,
       performed := performed s @ [InitVariables variables ignore_checkpoint]\<rparr>"

text \<open>
  \<^verbatim>\<open>Initialization.run\<close> (lines 8-31). Lines 11-12 build the graph:
  \<^verbatim>\<open>_set_placeholders\<close> declares TensorFlow placeholders and \<^verbatim>\<open>_parallel_forward\<close>, which
  is not among the sources, constructs the forward computation. What matters here is
  which global variables exist once the graph is built: \<open>parallel_forward\<close> is a parameter
  that maps the global variables before the construction to those after it. A failure
  inside the absent helpers (an unreadable checkpoint) is an exception that ends the run
  before line 31; the model covers the runs in which they return.
\<close>

definition run :: "(string list \<Rightarrow> string list) \<Rightarrow> bool \<Rightarrow> bool \<Rightarrow> session \<Rightarrow> session" where
  "run parallel_forward reinit_all ignore_checkpoint s =
     (let s1 = s\<lparr>global_variables := parallel_forward (global_variables s)\<rparr>;
          s2 = (if reinit_all \<or> \<not> session_built s1
                then init_session ignore_checkpoint s1
                else
                  (let variables = filter (\<lambda>var. var \<notin> inited_vars s1) (global_variables s1)
                   in if variables \<noteq> []
                      then init_variables variables ignore_checkpoint s1
                      else s1\<lparr>performed := performed s1 @ [LogAlreadyInitialized]\<rparr>))
      in s2\<lparr>session_mode := Some ''infer''\<rparr>)"

section \<open>Samples as shared objects: the store\<close>

text \<open>
  Python lists are objects with identity: the caller and \<^verbatim>\<open>_convert_X\<close> may hold the same
  list, and a change made through one reference is seen through the other. To speak of
  what \<^verbatim>\<open>_convert_X\<close> does to the caller's samples, the lists live in a store. A value is
  a number or a reference to a list; the store holds the list at each address, and a new
  list is allocated at the end of the store.
\<close>

datatype val = VFloat real | VInt int | VRef nat

type_synonym store = "val list list"

text \<open>The exceptions of \<^verbatim>\<open>_convert_X\<close> on the store: one of the plain exceptions, or the
  \<^verbatim>\<open>ValueError\<close> of lines 88-92 holding the sample it names and the exception caught.\<close>

datatype store_exc = Raised pyexc | WrongInputFormatAt val pyexc

text \<open>\<^verbatim>\<open>x[0]\<close>, \<^verbatim>\<open>len(x)\<close> and the two \<^verbatim>\<open>isinstance\<close> tests, on the store. A reference
  beyond the store does not arise in Python; it is treated as a value that is no list.\<close>

fun getitem0_at :: "store \<Rightarrow> val \<Rightarrow> pyexc + val" where
  "getitem0_at h (VRef a) =
     (if a < length h
      then (case h ! a of [] \<Rightarrow> Inl IndexError | v # _ \<Rightarrow> Inr v)
      else Inl TypeError)"
| "getitem0_at h _ = Inl TypeError"

fun len_at :: "store \<Rightarrow> val \<Rightarrow> pyexc + int" where
  "len_at h (VRef a) = (if a < length h then Inr (int (length (h ! a))) else Inl TypeError)"
| "len_at h _ = Inl TypeError"

fun is_list_ref :: "val \<Rightarrow> bool" where
  "is_list_ref (VRef _) = True"
| "is_list_ref _ = False"

fun is_float_val :: "val \<Rightarrow> bool" where
  "is_float_val (VFloat _) = True"
| "is_float_val _ = False"

text \<open>
  \<^verbatim>\<open>copy.deepcopy\<close>. A number is returned as it is. For a list, the memo is asked first,
  so that a list met twice (shared or cyclic) is copied once; otherwise an empty list
  \<^verbatim>\<open>y\<close> is allocated and recorded in the memo, and the copies of the elements are appended
  to \<^verbatim>\<open>y\<close> one by one. The recursion follows the references of the store, which may be
  cyclic, so it carries fuel for the depth of nesting: \<open>None\<close> means that the fuel ran out.
\<close>

fun deepcopy :: "nat \<Rightarrow> store \<Rightarrow> (nat \<times> nat) list \<Rightarrow> val \<Rightarrow> (val \<times> store \<times> (nat \<times> nat) list) option"
  and deepcopy_list ::
    "nat \<Rightarrow> store \<Rightarrow> (nat \<times> nat) list \<Rightarrow> nat \<Rightarrow> val list \<Rightarrow> (store \<times> (nat \<times> nat) list) option" where
  "deepcopy n h memo (VFloat f) = Some (VFloat f, h, memo)"
| "deepcopy n h memo (VInt i) = Some (VInt i, h, memo)"
| "deepcopy 0 h memo (VRef a) = None"
| "deepcopy (Suc n) h memo (VRef a) =
     (case map_of memo a of
        Some b \<Rightarrow> Some (VRef b, h, memo)
      | None \<Rightarrow>
          if a < length h
          then (case deepcopy_list n (h @ [[]]) ((a, length h) # memo) (length h) (h ! a) of
                  None \<Rightarrow> None
                | Some (h', memo') \<Rightarrow> Some (VRef (length h), h', memo'))
          else Some (VRef a, h, memo))"
| "deepcopy_list n h memo b [] = Some (h, memo)"
| "deepcopy_list n h memo b (e # es) =
     (case deepcopy n h memo e of
        None \<Rightarrow> None
      | Some (v, h1, memo1) \<Rightarrow> deepcopy_list n (h1[b := h1 ! b @ [v]]) memo1 b es)"

text \<open>\<^verbatim>\<open>_convert_x\<close> (lines 117-119) on the store: the check reads the sample, the deep copy
  allocates.\<close>

definition convert_x_at :: "nat \<Rightarrow> store \<Rightarrow> val \<Rightarrow> ((pyexc + val) \<times> store) option" where
  "convert_x_at fuel h x =
     (case getitem0_at h x of
        Inl e \<Rightarrow> Some (Inl e, h)
      | Inr x0 \<Rightarrow>
          if \<not> is_list_ref x0 then Some (Inl (AssertionError []), h)
          else (case getitem0_at h x0 of
                  Inl e \<Rightarrow> Some (Inl e, h)
                | Inr x00 \<Rightarrow>
                    if \<not> is_float_val x00 then Some (Inl (AssertionError []), h)
                    else (case deepcopy fuel h [] x of
                            None \<Rightarrow> None
                          | Some (c, h', memo) \<Rightarrow> Some (Inr c, h'))))"

text \<open>The first loop of \<^verbatim>\<open>_convert_X\<close> (lines 83-92) on the store.\<close>

fun convert_samples_at :: "nat \<Rightarrow> store \<Rightarrow> val list \<Rightarrow> ((store_exc + val list) \<times> store) option" where
  "convert_samples_at fuel h [] = Some (Inr [], h)"
| "convert_samples_at fuel h (sample # rest) =
     (case convert_x_at fuel h sample of
        None \<Rightarrow> None
      | Some (Inl e, h1) \<Rightarrow> Some (Inl (WrongInputFormatAt sample e), h1)
      | Some (Inr c, h1) \<Rightarrow>
          (case convert_samples_at fuel h1 rest of
             None \<Rightarrow> None
           | Some (Inl e, h2) \<Rightarrow> Some (Inl e, h2)
           | Some (Inr cs, h2) \<Rightarrow> Some (Inr (c # cs), h2)))"

text \<open>Lines 101-104 on the store: the units are read, none is written.\<close>

fun append_units_at :: "int \<Rightarrow> store \<Rightarrow> val list \<Rightarrow> val list \<times> int list \<Rightarrow> pyexc + val list \<times> int list" where
  "append_units_at mul h [] (ivals, imask) = Inr (ivals, imask)"
| "append_units_at mul h (segment # rest) (ivals, imask) =
     (case len_at h segment of
        Inl e \<Rightarrow> Inl e
      | Inr n \<Rightarrow>
          if n \<noteq> mul then Inl (AssertionError unit_length_msg)
          else append_units_at mul h rest (ivals @ [segment], imask @ [1]))"

text \<open>Lines 108-110 on the store: each \<^verbatim>\<open>[0] * self.max_unit_length\<close> is a new list.\<close>

fun padding_at :: "nat \<Rightarrow> int \<Rightarrow> store \<Rightarrow> val list \<times> int list \<Rightarrow> store \<times> val list \<times> int list" where
  "padding_at 0 mul h (ivals, imask) = (h, ivals, imask)"
| "padding_at (Suc n) mul h (ivals, imask) =
     padding_at n mul (h @ [replicate (nat mul) (VInt 0)]) (ivals @ [VRef (length h)], imask @ [0])"

text \<open>
  The body of the second loop (lines 97-110) on the store. \<^verbatim>\<open>com.truncate_segments\<close>
  changes the list \<^verbatim>\<open>segments\<close> in place: the store is written at its address.
\<close>

definition encode_segments_at :: "module \<Rightarrow> store \<Rightarrow> val \<Rightarrow> (pyexc + val list \<times> int list) \<times> store" where
  "encode_segments_at m h segments =
     (case segments of
        VRef b \<Rightarrow>
          if b < length h
          then (let h1 = h[b := truncate_segments (h ! b) (max_seq_length m - 1) (truncate_method m)]
                in case append_units_at (max_unit_length m) h1 (h1 ! b) ([], []) of
                     Inl e \<Rightarrow> (Inl e, h1)
                   | Inr (ivals, imask) \<Rightarrow>
                       (case padding_at (nat (max_seq_length m - 1 - int (length ivals)))
                               (max_unit_length m) h1 (ivals, imask @ [1]) of
                          (h2, ivals', imask') \<Rightarrow> (Inr (ivals', imask'), h2)))
          else (Inl TypeError, h)
      | _ \<Rightarrow> (Inl TypeError, h))"

fun encode_all_at :: "module \<Rightarrow> store \<Rightarrow> val list \<Rightarrow> (pyexc + val list list \<times> int list list) \<times> store" where
  "encode_all_at m h [] = (Inr ([], []), h)"
| "encode_all_at m h (segments # rest) =
     (case encode_segments_at m h segments of
        (Inl e, h1) \<Rightarrow> (Inl e, h1)
      | (Inr (ivals, imask), h1) \<Rightarrow>
          (case encode_all_at m h1 rest of
             (Inl e, h2) \<Rightarrow> (Inl e, h2)
           | (Inr (vs, ms), h2) \<Rightarrow> (Inr (ivals # vs, imask # ms), h2)))"

text \<open>\<^verbatim>\<open>_convert_X\<close> (lines 80-115) on the store: the result or the exception, with the
  store as the call leaves it.\<close>

definition convert_X_at ::
  "nat \<Rightarrow> module \<Rightarrow> store \<Rightarrow> val list
    \<Rightarrow> ((store_exc + val list list \<times> int list list) \<times> store) option" where
  "convert_X_at fuel m h X_target =
     (case convert_samples_at fuel h X_target of
        None \<Rightarrow> None
      | Some (Inl e, h1) \<Rightarrow> Some (Inl e, h1)
      | Some (Inr segment_input_values, h1) \<Rightarrow>
          (case encode_all_at m h1 segment_input_values of
             (Inl e, h2) \<Rightarrow> Some (Inl (Raised e), h2)
           | (Inr r, h2) \<Rightarrow> Some (Inr r, h2)))"

text \<open>
  The shape of sample that the specification describes, in the store: a list of units,
  each unit a list of numbers.
\<close>

definition numbers_at :: "store \<Rightarrow> nat \<Rightarrow> bool" where
  "numbers_at h c = (c < length h \<and> list_all (\<lambda>w. \<not> is_list_ref w) (h ! c))"

fun tabular :: "store \<Rightarrow> val \<Rightarrow> bool" where
  "tabular h (VRef a) =
     (a < length h \<and> list_all (\<lambda>u. case u of VRef c \<Rightarrow> numbers_at h c | _ \<Rightarrow> False) (h ! a))"
| "tabular h _ = False"

text \<open>
  Reading a sample of that shape out of the store gives the nested value that the
  encoding without a store works on.
\<close>

fun number_of :: "val \<Rightarrow> pyval" where
  "number_of (VFloat f) = PFloat f"
| "number_of (VInt i) = PInt i"
| "number_of (VRef a) = PList []"

definition read_unit :: "store \<Rightarrow> val \<Rightarrow> pyval" where
  "read_unit h u = (case u of VRef c \<Rightarrow> PList (map number_of (h ! c)) | _ \<Rightarrow> number_of u)"

definition read_sample :: "store \<Rightarrow> val \<Rightarrow> pyval" where
  "read_sample h x = (case x of VRef a \<Rightarrow> PList (map (read_unit h) (h ! a)) | _ \<Rightarrow> number_of x)"

text \<open>
  The copies that the first loop of \<^verbatim>\<open>_convert_X\<close> leaves in the store, from address
  \<open>N\<close> on: distinct lists of units, whose units are lists of numbers and are none of the
  copied samples themselves.
\<close>

definition copies_from :: "nat \<Rightarrow> store \<Rightarrow> val list \<Rightarrow> bool" where
  "copies_from N h cs =
     (distinct cs \<and>
      (\<forall>s \<in> set cs. \<exists>b. s = VRef b \<and> N \<le> b \<and> b < length h \<and>
         (\<forall>u \<in> set (h ! b). \<exists>c. u = VRef c \<and> N \<le> c \<and> VRef c \<notin> set cs \<and> numbers_at h c)))"

section \<open>Properties of the sample encoding\<close>

lemma append_units_ok:
  "list_all (\<lambda>u. py_len u = Inr mul) us \<Longrightarrow>
   append_units mul us (ivals, imask) = Inr (ivals @ us, imask @ replicate (length us) 1)"
  by (induction us arbitrary: ivals imask) (auto simp: replicate_app_Cons_same)

lemma padding_eq:
  "padding n mul (ivals, imask) = (ivals @ replicate n (zero_row mul), imask @ replicate n 0)"
  by (induction n arbitrary: ivals imask) (auto simp: replicate_app_Cons_same)

lemma is_unit_len: "is_unit mul u \<Longrightarrow> py_len u = Inr mul"
  by (cases u) auto

lemma well_formed_convert_x: "well_formed mul s \<Longrightarrow> convert_x s = Inr s"
  apply (cases s; simp)
  subgoal for us
    apply (cases us; simp)
    subgoal for u rest
      apply (cases u; simp add: convert_x_def)
      subgoal for fs by (cases fs; simp)
      done
    done
  done

lemma convert_samples_ok:
  "list_all (\<lambda>s. convert_x s = Inr s) X \<Longrightarrow> convert_samples X = Inr X"
  by (induction X) auto

lemma encode_all_ok:
  "list_all (\<lambda>s. encode_segments m s = Inr (f s, g s)) X \<Longrightarrow>
   encode_all m X = Inr (map f X, map g X)"
  by (induction X) auto

lemma truncate_segments_within:
  "int (length us) \<le> limit \<Longrightarrow> truncate_segments us limit method = us"
  by (simp add: truncate_segments_def)

lemma encode_segments_eq:
  assumes "list_all (\<lambda>u. py_len u = Inr (max_unit_length m))
             (truncate_segments us (max_seq_length m - 1) (truncate_method m))"
  shows "encode_segments m (PList us) =
     Inr (truncate_segments us (max_seq_length m - 1) (truncate_method m)
            @ replicate (nat (max_seq_length m - 1
                 - int (length (truncate_segments us (max_seq_length m - 1) (truncate_method m)))))
                (zero_row (max_unit_length m)),
          replicate (Suc (length (truncate_segments us (max_seq_length m - 1) (truncate_method m)))) 1
            @ replicate (nat (max_seq_length m - 1
                 - int (length (truncate_segments us (max_seq_length m - 1) (truncate_method m))))) 0)"
  using append_units_ok[OF assms, of "[]" "[]"]
  by (simp add: encode_segments_def padding_eq replicate_append_same)

lemma encode_segments_well_formed:
  assumes "well_formed (max_unit_length m) s"
      and "int (length (units_of s)) \<le> max_seq_length m - 1"
  shows "encode_segments m s =
     Inr (units_of s @ replicate (nat (max_seq_length m - 1 - int (length (units_of s))))
                         (zero_row (max_unit_length m)),
          replicate (length (units_of s) + 1) 1
            @ replicate (nat (max_seq_length m - 1 - int (length (units_of s)))) 0)"
proof -
  obtain us where s: "s = PList us" using assms(1) by (cases s) auto
  have tr: "truncate_segments us (max_seq_length m - 1) (truncate_method m) = us"
    using assms(2) s by (simp add: truncate_segments_within)
  have "list_all (\<lambda>u. py_len u = Inr (max_unit_length m)) us"
    using assms(1) s by (auto simp: list_all_iff is_unit_len)
  then show ?thesis
    using encode_segments_eq[of m us] by (simp add: tr s)
qed

text \<open>
  Claim C1. For every batch of well-formed samples, each with \<open>k \<le> max_seq_length - 1\<close>
  units, \<^verbatim>\<open>_convert_X\<close> returns for each sample a mask of \<open>k + 1\<close> ones followed by
  \<open>max_seq_length - 1 - k\<close> zeros (length \<open>max_seq_length\<close>), and values made of the
  \<open>k\<close> unit rows followed by \<open>max_seq_length - 1 - k\<close> zero rows, each of them a list
  of \<open>max_unit_length\<close> zeros (the integer \<open>0\<close> of line 109).
\<close>

theorem convert_X_padding_layout:
  assumes "\<forall>s \<in> set X. well_formed (max_unit_length m) s
             \<and> int (length (units_of s)) \<le> max_seq_length m - 1"
  shows "convert_X m X =
     Inr (map (\<lambda>s. units_of s @ replicate (nat (max_seq_length m - 1 - int (length (units_of s))))
                                     (PList (replicate (nat (max_unit_length m)) (PInt 0)))) X,
          map (\<lambda>s. replicate (length (units_of s) + 1) 1
                      @ replicate (nat (max_seq_length m - 1 - int (length (units_of s)))) 0) X)
       \<and> (\<forall>s \<in> set X.
             int (length (units_of s @ replicate (nat (max_seq_length m - 1 - int (length (units_of s))))
                                     (PList (replicate (nat (max_unit_length m)) (PInt 0)))))
               = max_seq_length m - 1
           \<and> int (length (replicate (length (units_of s) + 1) (1::int)
                      @ replicate (nat (max_seq_length m - 1 - int (length (units_of s)))) 0))
               = max_seq_length m
           \<and> int (length (replicate (nat (max_unit_length m)) (PInt 0))) = max_unit_length m)"
proof -
  have "list_all (\<lambda>s. convert_x s = Inr s) X"
    using assms by (auto simp: list_all_iff well_formed_convert_x)
  then have 1: "convert_samples X = Inr X" by (rule convert_samples_ok)
  have 2: "list_all (\<lambda>s. encode_segments m s =
     Inr (units_of s @ replicate (nat (max_seq_length m - 1 - int (length (units_of s))))
                         (zero_row (max_unit_length m)),
          replicate (length (units_of s) + 1) 1
            @ replicate (nat (max_seq_length m - 1 - int (length (units_of s)))) 0)) X"
    using assms by (auto simp: list_all_iff encode_segments_well_formed)
  have 3: "convert_X m X =
     Inr (map (\<lambda>s. units_of s @ replicate (nat (max_seq_length m - 1 - int (length (units_of s))))
                                     (PList (replicate (nat (max_unit_length m)) (PInt 0)))) X,
          map (\<lambda>s. replicate (length (units_of s) + 1) 1
                      @ replicate (nat (max_seq_length m - 1 - int (length (units_of s)))) 0) X)"
    unfolding convert_X_def 1 using encode_all_ok[OF 2] by (simp add: zero_row_def)
  have 4: "0 \<le> max_unit_length m" if "s \<in> set X" for s
  proof -
    from that assms have wf: "well_formed (max_unit_length m) s" by blast
    then obtain us where s: "s = PList us" by (cases s) auto
    with wf obtain u rest where us: "us = u # rest" by (cases us) auto
    from wf s us have "is_unit (max_unit_length m) u" by simp
    then show ?thesis by (cases u) auto
  qed
  have 5: "\<forall>s \<in> set X.
             int (length (units_of s @ replicate (nat (max_seq_length m - 1 - int (length (units_of s))))
                                     (PList (replicate (nat (max_unit_length m)) (PInt 0)))))
               = max_seq_length m - 1
           \<and> int (length (replicate (length (units_of s) + 1) (1::int)
                      @ replicate (nat (max_seq_length m - 1 - int (length (units_of s)))) 0))
               = max_seq_length m
           \<and> int (length (replicate (nat (max_unit_length m)) (PInt 0))) = max_unit_length m"
    using assms 4 by auto
  from 3 5 show ?thesis by blast
qed

theorem convert_X_padding_layout_witness:
  "well_formed 3 (PList [PList [PFloat 1, PFloat 2, PFloat 3]])
   \<and> int (length (units_of (PList [PList [PFloat 1, PFloat 2, PFloat 3]]))) \<le> 4 - 1
   \<and> convert_X (new_module 4 3 None LIFO 32 [0]) [PList [PList [PFloat 1, PFloat 2, PFloat 3]]] =
       Inr ([[PList [PFloat 1, PFloat 2, PFloat 3], PList [PInt 0, PInt 0, PInt 0],
              PList [PInt 0, PInt 0, PInt 0]]],
            [[1, 1, 0, 0]])"
  using convert_X_padding_layout[of "[PList [PList [PFloat 1, PFloat 2, PFloat 3]]]"
      "new_module 4 3 None LIFO 32 [0]"]
  by (simp add: new_module_def numeral_eq_Suc)

lemma convert_x_Inr: "convert_x s = Inr c \<Longrightarrow> c = s \<and> is_list s"
  by (cases s) (auto simp: convert_x_def split: sum.splits if_splits)

lemma convert_samples_Inr:
  "convert_samples X = Inr cs \<Longrightarrow> cs = X \<and> list_all is_list X"
  by (induction X arbitrary: cs) (auto split: sum.splits dest: convert_x_Inr)

lemma convert_samples_Inl:
  "convert_samples X = Inl e \<Longrightarrow> \<exists>s c. s \<in> set X \<and> e = WrongInputFormat s c \<and> convert_x s = Inl c"
  by (induction X) (auto split: sum.splits)

lemma append_units_Inr:
  "append_units mul us acc = Inr r \<Longrightarrow> list_all (\<lambda>u. py_len u = Inr mul) us"
  by (induction mul us acc rule: append_units.induct) (auto split: sum.splits if_splits)

lemma py_len_Inl: "py_len u = Inl e \<Longrightarrow> e = TypeError \<and> \<not> is_list u"
  by (cases u) auto

lemma append_units_Inl:
  "append_units mul us acc = Inl e \<Longrightarrow> e = TypeError \<or> e = AssertionError unit_length_msg"
  by (induction mul us acc rule: append_units.induct)
     (auto split: sum.splits if_splits dest: py_len_Inl)

lemma append_units_lists:
  "list_all is_list us \<Longrightarrow> append_units mul us acc = Inl e \<Longrightarrow> e = AssertionError unit_length_msg"
  by (induction mul us acc rule: append_units.induct)
     (auto split: sum.splits if_splits dest: py_len_Inl)

lemma encode_segments_Inr:
  assumes "encode_segments m s = Inr (ivals, imask)"
  shows "imask = replicate (Suc (length (truncate_segments (units_of s) (max_seq_length m - 1) (truncate_method m)))) 1
            @ replicate (nat (max_seq_length m - 1
                 - int (length (truncate_segments (units_of s) (max_seq_length m - 1) (truncate_method m))))) 0"
   and "ivals = truncate_segments (units_of s) (max_seq_length m - 1) (truncate_method m)
            @ replicate (nat (max_seq_length m - 1
                 - int (length (truncate_segments (units_of s) (max_seq_length m - 1) (truncate_method m)))))
                (zero_row (max_unit_length m))"
proof -
  obtain us where s: "s = PList us"
    using assms by (cases s) (auto simp: encode_segments_def)
  obtain r where "append_units (max_unit_length m)
       (truncate_segments us (max_seq_length m - 1) (truncate_method m)) ([], []) = Inr r"
    using assms s by (auto simp: encode_segments_def split: sum.splits)
  then have "list_all (\<lambda>u. py_len u = Inr (max_unit_length m))
       (truncate_segments us (max_seq_length m - 1) (truncate_method m))"
    by (rule append_units_Inr)
  from encode_segments_eq[OF this] assms s
  show "imask = replicate (Suc (length (truncate_segments (units_of s) (max_seq_length m - 1) (truncate_method m)))) 1
            @ replicate (nat (max_seq_length m - 1
                 - int (length (truncate_segments (units_of s) (max_seq_length m - 1) (truncate_method m))))) 0"
   and "ivals = truncate_segments (units_of s) (max_seq_length m - 1) (truncate_method m)
            @ replicate (nat (max_seq_length m - 1
                 - int (length (truncate_segments (units_of s) (max_seq_length m - 1) (truncate_method m)))))
                (zero_row (max_unit_length m))"
    by simp_all
qed

lemma mask_shape:
  "(replicate (Suc k) (1::int) @ replicate n 0) ! k = 1"
  "last (replicate (Suc k) (1::int) @ replicate n 0) = 1 \<longleftrightarrow> n = 0"
  by (cases n; simp add: nth_append del: replicate_Suc)+

lemma encode_all_length:
  "encode_all m X = Inr (vs, ms) \<Longrightarrow> length vs = length X \<and> length ms = length X"
  by (induction X arbitrary: vs ms) (auto split: sum.splits prod.splits)

lemma encode_all_Inr:
  "encode_all m X = Inr (vs, ms) \<Longrightarrow> i < length X \<Longrightarrow>
   encode_segments m (X ! i) = Inr (vs ! i, ms ! i)"
proof (induction X arbitrary: vs ms i)
  case Nil
  then show ?case by simp
next
  case (Cons s X)
  then show ?case
    by (cases i) (auto split: sum.splits prod.splits)
qed

text \<open>
  Claim C3, as amended. For every sample of a batch that \<^verbatim>\<open>_convert_X\<close> encodes, with \<open>k\<close>
  units left after truncation, the mask is \<open>k + 1\<close> ones followed by
  \<open>max_seq_length - 1 - k\<close> zeros: the reserved position is index \<open>k\<close>, right after
  the real units, and the last position of the mask is \<open>1\<close> exactly when the sample
  fills all \<open>max_seq_length - 1\<close> value slots.
\<close>

theorem mask_reserved_position:
  assumes "convert_X m X = Inr (vs, ms)" and "i < length X"
  shows "ms ! i =
           replicate (Suc (length (truncate_segments (units_of (X ! i)) (max_seq_length m - 1) (truncate_method m)))) 1
           @ replicate (nat (max_seq_length m - 1
                 - int (length (truncate_segments (units_of (X ! i)) (max_seq_length m - 1) (truncate_method m))))) 0
         \<and> ms ! i ! length (truncate_segments (units_of (X ! i)) (max_seq_length m - 1) (truncate_method m)) = 1
         \<and> (last (ms ! i) = 1 \<longleftrightarrow>
              max_seq_length m - 1
                \<le> int (length (truncate_segments (units_of (X ! i)) (max_seq_length m - 1) (truncate_method m))))"
proof -
  obtain cs where cs: "convert_samples X = Inr cs" "encode_all m cs = Inr (vs, ms)"
    using assms(1) by (auto simp: convert_X_def split: sum.splits)
  then have "cs = X" by (auto dest: convert_samples_Inr)
  with cs assms(2) have "encode_segments m (X ! i) = Inr (vs ! i, ms ! i)"
    by (auto dest: encode_all_Inr)
  from encode_segments_Inr(1)[OF this] show ?thesis
    by (simp only: mask_shape) simp
qed



theorem mask_reserved_position_witness:
  "convert_X (new_module 4 2 None LIFO 32 [0])
      [PList [PList [PFloat 1, PFloat 2], PList [PFloat 3, PFloat 4]]] =
     Inr ([[PList [PFloat 1, PFloat 2], PList [PFloat 3, PFloat 4], PList [PInt 0, PInt 0]]],
          [[1, 1, 1, 0]])
   \<and> (0::nat) < length [PList [PList [PFloat 1, PFloat 2], PList [PFloat 3, PFloat 4]]]
   \<and> [[1, 1, 1, 0::int]] ! 0 ! 2 = 1
   \<and> last ([[1, 1, 1, 0::int]] ! 0) \<noteq> 1"
proof -
  have run: "convert_X (new_module 4 2 None LIFO 32 [0])
      [PList [PList [PFloat 1, PFloat 2], PList [PFloat 3, PFloat 4]]] =
     Inr ([[PList [PFloat 1, PFloat 2], PList [PFloat 3, PFloat 4], PList [PInt 0, PInt 0]]],
          [[1, 1, 1, 0]])"
    by (simp add: convert_X_def convert_x_def encode_segments_def truncate_segments_def
        new_module_def zero_row_def padding_eq numeral_eq_Suc)
  show ?thesis
    using run mask_reserved_position[OF run, of 0]
    by (simp add: new_module_def truncate_segments_def)
qed

text \<open>
  Claim C3 as stated fails: with \<^verbatim>\<open>max_seq_length = 4\<close> and a sample of one unit, the mask
  is \<open>[1, 1, 0, 0]\<close>, whose last position (index 3) is \<open>0\<close>.
\<close>

theorem mask_last_position_counterexample:
  "convert_X (new_module 4 2 None LIFO 32 [0]) [PList [PList [PFloat 1, PFloat 1]]] =
     Inr ([[PList [PFloat 1, PFloat 1], PList [PInt 0, PInt 0], PList [PInt 0, PInt 0]]],
          [[1, 1, 0, 0]])
   \<and> [1, 1, 0, 0::int] ! nat (max_seq_length (new_module 4 2 None LIFO 32 [0]) - 1) = 0"
  by (simp add: convert_X_def convert_x_def encode_segments_def truncate_segments_def
      new_module_def zero_row_def padding_eq numeral_eq_Suc)

text \<open>
  Claim C2, as amended. For \<^verbatim>\<open>max_seq_length = 4\<close>, \<^verbatim>\<open>max_unit_length = 2\<close> and
  \<^verbatim>\<open>truncate_method = "LIFO"\<close>, the single sample \<^verbatim>\<open>[[1.0, 1.0], [2.0, 2.0], [3.0, 3.0]]\<close>
  is encoded as values \<^verbatim>\<open>[[1, 1], [2, 2], [3, 3]]\<close> and mask \<^verbatim>\<open>[1, 1, 1, 1]\<close>: its three
  units fill the \<open>max_seq_length - 1 = 3\<close> value slots, so nothing is truncated and
  nothing is padded.
\<close>

theorem scenario_three_units:
  "convert_X (m\<lparr>max_seq_length := 4, max_unit_length := 2, truncate_method := LIFO\<rparr>)
      [PList [PList [PFloat 1, PFloat 1], PList [PFloat 2, PFloat 2], PList [PFloat 3, PFloat 3]]] =
     Inr ([[PList [PFloat 1, PFloat 1], PList [PFloat 2, PFloat 2], PList [PFloat 3, PFloat 3]]],
          [[1, 1, 1, 1]])"
  by (simp add: convert_X_def convert_x_def encode_segments_def truncate_segments_def)

text \<open>
  Claim C2 as stated fails: the result is not values \<^verbatim>\<open>[[2, 2], [3, 3], [0, 0]]\<close> with
  mask \<^verbatim>\<open>[1, 1, 1, 0]\<close>, whether the numbers of the sample are read as floats (first
  conjunct) or as Python integers, which \<^verbatim>\<open>_convert_x\<close> rejects (second conjunct).
\<close>

theorem scenario_three_units_counterexample:
  "convert_X (new_module 4 2 None LIFO 32 [0])
      [PList [PList [PFloat 1, PFloat 1], PList [PFloat 2, PFloat 2], PList [PFloat 3, PFloat 3]]]
     \<noteq> Inr ([[PList [PFloat 2, PFloat 2], PList [PFloat 3, PFloat 3], PList [PInt 0, PInt 0]]],
            [[1, 1, 1, 0]])
   \<and> convert_X (new_module 4 2 None LIFO 32 [0])
      [PList [PList [PInt 1, PInt 1], PList [PInt 2, PInt 2], PList [PInt 3, PInt 3]]]
     = Inl (WrongInputFormat
              (PList [PList [PInt 1, PInt 1], PList [PInt 2, PInt 2], PList [PInt 3, PInt 3]])
              (AssertionError []))"
  by (simp add: convert_X_def convert_x_def encode_segments_def truncate_segments_def
      new_module_def zero_row_def padding_eq numeral_eq_Suc)

lemma append_units_bad:
  "list_all is_list us \<Longrightarrow> \<exists>u \<in> set us. py_len u \<noteq> Inr mul \<Longrightarrow>
   append_units mul us acc = Inl (AssertionError unit_length_msg)"
proof (induction mul us acc rule: append_units.induct)
  case (1 mul ivals imask)
  then show ?case by simp
next
  case (2 mul segment rest ivals imask)
  then show ?case
    by (cases segment) (auto split: if_splits)
qed

lemma encode_segments_lists:
  "list_all is_list (truncate_segments (units_of s) (max_seq_length m - 1) (truncate_method m)) \<Longrightarrow>
   is_list s \<Longrightarrow> encode_segments m s = Inl e \<Longrightarrow> e = AssertionError unit_length_msg"
  by (cases s) (auto simp: encode_segments_def split: sum.splits dest: append_units_lists)

lemma encode_segments_bad:
  "list_all is_list (truncate_segments (units_of s) (max_seq_length m - 1) (truncate_method m)) \<Longrightarrow>
   is_list s \<Longrightarrow>
   \<exists>u \<in> set (truncate_segments (units_of s) (max_seq_length m - 1) (truncate_method m)).
      py_len u \<noteq> Inr (max_unit_length m) \<Longrightarrow>
   encode_segments m s = Inl (AssertionError unit_length_msg)"
  by (cases s) (auto simp: encode_segments_def append_units_bad)

lemma encode_all_bad:
  assumes "list_all is_list X"
    and "\<forall>s \<in> set X. list_all is_list
            (truncate_segments (units_of s) (max_seq_length m - 1) (truncate_method m))"
    and "\<exists>s \<in> set X. \<exists>u \<in> set (truncate_segments (units_of s) (max_seq_length m - 1) (truncate_method m)).
            py_len u \<noteq> Inr (max_unit_length m)"
  shows "encode_all m X = Inl (AssertionError unit_length_msg)"
  using assms
proof (induction X)
  case Nil
  then show ?case by simp
next
  case (Cons s X)
  show ?case
  proof (cases "encode_segments m s")
    case (Inl e)
    then have "e = AssertionError unit_length_msg"
      using Cons.prems by (auto dest: encode_segments_lists)
    with Inl show ?thesis by simp
  next
    case (Inr r)
    then have "\<not> (\<exists>u \<in> set (truncate_segments (units_of s) (max_seq_length m - 1) (truncate_method m)).
            py_len u \<noteq> Inr (max_unit_length m))"
      using Cons.prems(1,2) encode_segments_bad[of s m] by auto
    then have "encode_all m X = Inl (AssertionError unit_length_msg)"
      using Cons by auto
    with Inr show ?thesis by (simp split: prod.splits)
  qed
qed

text \<open>
  Claim C7, as amended. For every batch whose samples pass the check of \<^verbatim>\<open>_convert_x\<close> and
  whose units are lists: if some sample holds, after truncation, a unit whose length
  differs from \<^verbatim>\<open>max_unit_length\<close>, then \<^verbatim>\<open>_convert_X\<close> fails with the
  \<^verbatim>\<open>AssertionError\<close> of line 102, whose fixed message names neither the sample nor an
  example of the expected format; no partial batch is returned.
\<close>

theorem unit_length_mismatch_fails:
  assumes "list_all (\<lambda>s. convert_x s = Inr s) X"
    and "\<forall>s \<in> set X. list_all is_list
            (truncate_segments (units_of s) (max_seq_length m - 1) (truncate_method m))"
    and "\<exists>s \<in> set X. \<exists>u \<in> set (truncate_segments (units_of s) (max_seq_length m - 1) (truncate_method m)).
            py_len u \<noteq> Inr (max_unit_length m)"
  shows "convert_X m X = Inl (AssertionError unit_length_msg)"
proof -
  have 1: "convert_samples X = Inr X" using assms(1) by (rule convert_samples_ok)
  have "list_all is_list X"
    using assms(1) by (auto simp: list_all_iff dest: convert_x_Inr)
  then show ?thesis
    unfolding convert_X_def 1 using encode_all_bad[OF _ assms(2,3)] by simp
qed

theorem unit_length_mismatch_fails_witness:
  "convert_x (PList [PList [PFloat 1, PFloat 1], PList [PFloat 2]])
     = Inr (PList [PList [PFloat 1, PFloat 1], PList [PFloat 2]])
   \<and> list_all is_list (truncate_segments [PList [PFloat 1, PFloat 1], PList [PFloat 2]] (4 - 1) LIFO)
   \<and> py_len (PList [PFloat 2]) \<noteq> Inr 2
   \<and> convert_X (new_module 4 2 None LIFO 32 [0])
         [PList [PList [PFloat 1, PFloat 1], PList [PFloat 2]]]
       = Inl (AssertionError unit_length_msg)"
  using unit_length_mismatch_fails[of "[PList [PList [PFloat 1, PFloat 1], PList [PFloat 2]]]"
      "new_module 4 2 None LIFO 32 [0]"]
  by (simp add: convert_x_def truncate_segments_def new_module_def)

text \<open>
  Claim C7 as stated fails: a sample whose second unit has one number instead of two is
  refused with the bare \<^verbatim>\<open>AssertionError\<close> of line 102, not with the
  \<^verbatim>\<open>ValueError\<close> that names the sample and gives the example.
\<close>

theorem unit_length_error_counterexample:
  "convert_X (new_module 4 2 None LIFO 32 [0])
      [PList [PList [PFloat 1, PFloat 1], PList [PFloat 2]]]
     = Inl (AssertionError unit_length_msg)
   \<and> convert_X (new_module 4 2 None LIFO 32 [0])
      [PList [PList [PFloat 1, PFloat 1], PList [PFloat 2]]]
     \<noteq> Inl (WrongInputFormat (PList [PList [PFloat 1, PFloat 1], PList [PFloat 2]])
              (AssertionError unit_length_msg))"
  by (simp add: convert_X_def convert_x_def encode_segments_def truncate_segments_def
      new_module_def)

lemma convert_x_cases: "convert_x s = Inr s \<or> (\<exists>e. convert_x s = Inl e)"
  by (cases "convert_x s") (auto dest: convert_x_Inr)

lemma encode_all_Inl:
  "encode_all m X = Inl e \<Longrightarrow> e = TypeError \<or> e = AssertionError unit_length_msg"
proof (induction X)
  case Nil
  then show ?case by simp
next
  case (Cons s X)
  have "encode_segments m s = Inl e \<Longrightarrow> e = TypeError \<or> e = AssertionError unit_length_msg"
    by (cases s) (auto simp: encode_segments_def split: sum.splits dest: append_units_Inl)
  with Cons show ?case
    by (auto split: sum.splits prod.splits)
qed

text \<open>The \<^verbatim>\<open>ValueError\<close> that names the sample and holds the example is raised exactly
  when \<^verbatim>\<open>_convert_x\<close> rejects a sample of the batch.\<close>

lemma wrong_format_iff:
  "(\<exists>s e. convert_X m X = Inl (WrongInputFormat s e)) \<longleftrightarrow> \<not> list_all (\<lambda>s. convert_x s = Inr s) X"
proof
  assume "\<exists>s e. convert_X m X = Inl (WrongInputFormat s e)"
  then obtain s e where a: "convert_X m X = Inl (WrongInputFormat s e)" by blast
  show "\<not> list_all (\<lambda>s. convert_x s = Inr s) X"
  proof
    assume "list_all (\<lambda>s. convert_x s = Inr s) X"
    then have "convert_samples X = Inr X" by (rule convert_samples_ok)
    with a have "encode_all m X = Inl (WrongInputFormat s e)" by (simp add: convert_X_def)
    then show False by (auto dest: encode_all_Inl)
  qed
next
  assume "\<not> list_all (\<lambda>s. convert_x s = Inr s) X"
  then have "\<exists>e. convert_samples X = Inl e"
  proof (induction X)
    case Nil then show ?case by simp
  next
    case (Cons s X)
    then show ?case using convert_x_cases[of s] by (auto split: sum.splits)
  qed
  then obtain e where "convert_samples X = Inl e" by blast
  then show "\<exists>s e. convert_X m X = Inl (WrongInputFormat s e)"
    by (auto simp: convert_X_def dest: convert_samples_Inl)
qed

section \<open>Properties of the label encoding\<close>

lemma update_fresh: "k \<notin> fst ` set al \<Longrightarrow> AList.update k v al = al @ [(k, v)]"
  by (induction al) auto

lemma fold_enumerate:
  "distinct ls \<Longrightarrow> set ls \<inter> fst ` set d0 = {} \<Longrightarrow>
   fold (\<lambda>(index, label) d. AList.update label index d) (List.enumerate n ls) d0
     = d0 @ zip ls [n..<n + length ls]"
proof (induction ls arbitrary: n d0)
  case Nil
  then show ?case by simp
next
  case (Cons l ls)
  have 1: "AList.update l n d0 = d0 @ [(l, n)]"
    using Cons.prems by (intro update_fresh) auto
  have 2: "set ls \<inter> fst ` set (d0 @ [(l, n)]) = {}"
    using Cons.prems by auto
  show ?case
    using Cons.IH[of "d0 @ [(l, n)]" "Suc n"] Cons.prems(1) 2
    by (simp add: 1 upt_conv_Cons del: upt_Suc)
qed

lemma enumerate_dict_distinct:
  "distinct ls \<Longrightarrow> enumerate_dict ls = zip ls [0..<length ls]"
  using fold_enumerate[of ls "[]" 0] by (simp add: enumerate_dict_def)

lemma label_loop_stable:
  "label_loop cap y d itl acc = (r, d', itl') \<Longrightarrow> map_of d l = Some i \<Longrightarrow> map_of d' l = Some i"
proof (induction cap y d itl acc rule: label_loop.induct)
  case (1 cap d itl label_ids)
  then show ?case by simp
next
  case (2 cap label rest d itl label_ids)
  show ?case
  proof (cases "map_of d label")
    case (Some j)
    with 2 show ?thesis by simp
  next
    case None
    then have "label \<noteq> l" using 2(4) by auto
    then have "map_of (AList.update label (length d) d) l = Some i"
      using 2(4) by (simp add: update_conv')
    with 2 None show ?thesis by (auto split: if_splits)
  qed
qed

lemma label_loop_ids:
  "label_loop cap y d itl acc = (Inr ids, d', itl') \<Longrightarrow>
   ids = acc @ map (\<lambda>l. the (map_of d' l)) y \<and> set y \<subseteq> dom (map_of d')"
proof (induction cap y d itl acc arbitrary: ids rule: label_loop.induct)
  case (1 cap d itl label_ids)
  then show ?case by simp
next
  case (2 cap label rest d itl label_ids)
  show ?case
  proof (cases "map_of d label")
    case (Some j)
    with 2 have run: "label_loop cap rest d itl (label_ids @ [j]) = (Inr ids, d', itl')" by simp
    from label_loop_stable[OF run Some] 2(2)[OF Some run]
    show ?thesis by auto
  next
    case None
    with 2(3) have lt: "length d < cap" by (auto split: if_splits)
    with 2(3) None have run: "label_loop cap rest (AList.update label (length d) d) (itl @ [label])
        (label_ids @ [length d]) = (Inr ids, d', itl')" by simp
    have "map_of (AList.update label (length d) d) label = Some (length d)"
      by (simp add: update_conv')
    from label_loop_stable[OF run this] 2(1)[OF None lt run]
    show ?thesis by auto
  qed
qed

lemma LInt_int_of: "list_all is_LInt ls \<Longrightarrow> map (LInt \<circ> int_of) ls = ls"
proof (induction ls)
  case Nil then show ?case by simp
next
  case (Cons l ls) then show ?case by (cases l) auto
qed

lemma LStr_str_of: "list_all is_LStr ls \<Longrightarrow> map (LStr \<circ> str_of) ls = ls"
proof (induction ls)
  case Nil then show ?case by simp
next
  case (Cons l ls) then show ?case by (cases l) auto
qed

lemma py_sorted_set: "py_sorted ls = Some s \<Longrightarrow> set s = set ls"
proof -
  assume a: "py_sorted ls = Some s"
  show ?thesis
  proof (cases "list_all is_LInt ls")
    case True
    then have "s = map LInt (sort (map int_of ls))" using a by (simp add: py_sorted_def)
    then have "set s = set (map (LInt \<circ> int_of) ls)" by (simp add: image_comp)
    then show ?thesis by (simp only: LInt_int_of[OF True])
  next
    case False
    then have t: "list_all is_LStr ls" and "s = map LStr (sort (map str_of ls))"
      using a by (auto simp: py_sorted_def split: if_splits)
    then have "set s = set (map (LStr \<circ> str_of) ls)" by (simp add: image_comp)
    then show ?thesis by (simp only: LStr_str_of[OF t])
  qed
qed

lemma py_sorted_distinct: "py_sorted ls = Some s \<Longrightarrow> distinct ls \<Longrightarrow> distinct s"
proof -
  assume a: "py_sorted ls = Some s" and d: "distinct ls"
  show ?thesis
  proof (cases "list_all is_LInt ls")
    case True
    then have s: "s = map LInt (sort (map int_of ls))" using a by (simp add: py_sorted_def)
    have "distinct (map (LInt \<circ> int_of) ls)" using d by (simp only: LInt_int_of[OF True])
    then have "distinct (map int_of ls)" by (simp add: distinct_map inj_on_def)
    then show ?thesis by (simp add: s distinct_map inj_on_def)
  next
    case False
    then have t: "list_all is_LStr ls" and s: "s = map LStr (sort (map str_of ls))"
      using a by (auto simp: py_sorted_def split: if_splits)
    have "distinct (map (LStr \<circ> str_of) ls)" using d by (simp only: LStr_str_of[OF t])
    then have "distinct (map str_of ls)" by (simp add: distinct_map inj_on_def)
    then show ?thesis by (simp add: s distinct_map inj_on_def)
  qed
qed

lemma label_order_props:
  assumes "distinct (set_list y)" and "set (set_list y) = set y"
  shows "distinct (label_order set_list y)"
    and "set (label_order set_list y) = set y"
    and "length (label_order set_list y) = length (remdups y)"
proof -
  show 1: "distinct (label_order set_list y)"
    using assms(1) by (auto simp: label_order_def split: option.splits dest: py_sorted_distinct)
  show 2: "set (label_order set_list y) = set y"
    using assms(2) by (auto simp: label_order_def split: option.splits dest: py_sorted_set)
  have "length (label_order set_list y) = card (set (label_order set_list y))"
    using 1 by (simp add: distinct_card)
  then show "length (label_order set_list y) = length (remdups y)"
    by (simp add: 2 length_remdups_card_conv)
qed

lemma map_of_enum_None: "map_of (zip itl [0..<length itl]) l = None \<longleftrightarrow> l \<notin> set itl"
  by (simp add: map_of_zip_is_None)

lemma label_loop_canon:
  assumes "label_loop cap y d itl acc = (r, d', itl')"
      and "distinct itl" and "d = zip itl [0..<length itl]"
  shows "distinct itl' \<and> d' = zip itl' [0..<length itl']
         \<and> (\<exists>ext. itl' = itl @ ext \<and> set ext \<subseteq> set y)
         \<and> (length itl \<le> cap \<longrightarrow> length itl' \<le> cap)"
  using assms
proof (induction cap y d itl acc rule: label_loop.induct)
  case (1 cap d itl label_ids)
  then show ?case by auto
next
  case (2 cap label rest d itl label_ids)
  show ?case
  proof (cases "map_of d label")
    case (Some j)
    with 2(3) have run: "label_loop cap rest d itl (label_ids @ [j]) = (r, d', itl')" by simp
    from 2(2)[OF Some run 2(4,5)] show ?thesis by auto
  next
    case None
    then have fresh: "label \<notin> set itl" using 2(5) by (simp add: map_of_enum_None)
    show ?thesis
    proof (cases "length d < cap")
      case True
      have len: "length d = length itl" using 2(5) by simp
      have "label \<notin> fst ` set d" using None by (simp add: map_of_eq_None_iff)
      then have upd: "AList.update label (length d) d = d @ [(label, length d)]"
        by (rule update_fresh)
      have canon: "AList.update label (length d) d
                     = zip (itl @ [label]) [0..<length (itl @ [label])]"
        unfolding upd using 2(5) by simp
      have dist: "distinct (itl @ [label])" using 2(4) fresh by simp
      from True None 2(3)
      have run: "label_loop cap rest (AList.update label (length d) d) (itl @ [label])
                   (label_ids @ [length d]) = (r, d', itl')" by simp
      from 2(1)[OF None True run dist canon] True len
      show ?thesis by auto
    next
      case False
      with None 2(3) have "d' = d" "itl' = itl" by auto
      with 2(4,5) show ?thesis by simp
    qed
  qed
qed

lemma falsy_list_iff: "falsy_list xs \<longleftrightarrow> list_of xs = []"
  by (cases xs) auto

lemma convert_y_reject:
  assumes "label_size m = Some c" and "c \<noteq> 0" and "c < length (remdups y)"
  shows "convert_y set_list m y
           = (Inl (AssertionError unique_y_msg), m)"
  using assms by (simp add: convert_y_def)

lemma convert_y_loop:
  assumes "vocab_ok m"
      and "distinct (label_order set_list y)"
      and "capacity (label_size m) = 0 \<or> length (remdups y) \<le> capacity (label_size m)"
  shows "convert_y set_list m y =
     (case label_loop
             (if capacity (label_size m) \<noteq> 0 then capacity (label_size m) else length (remdups y))
             y
             (zip (if list_of (id_to_label m) = [] then label_order set_list y
                   else list_of (id_to_label m))
                [0..<length (if list_of (id_to_label m) = [] then label_order set_list y
                             else list_of (id_to_label m))])
             (if list_of (id_to_label m) = [] then label_order set_list y
              else list_of (id_to_label m))
             [] of
        (r, d', itl') \<Rightarrow>
          (r, m\<lparr>label_size :=
                   Some (if capacity (label_size m) \<noteq> 0 then capacity (label_size m)
                         else length (remdups y)),
                 id_to_label := Some itl', label_to_id := Some d'\<rparr>))"
proof -
  have c: "(capacity (label_size m) \<noteq> 0 \<and> \<not> length (remdups y) \<le> capacity (label_size m)) = False"
    using assms(3) by auto
  have d: "list_of (label_to_id m)
             = zip (list_of (id_to_label m)) [0..<length (list_of (id_to_label m))]"
    using assms(1) by (simp add: vocab_ok_def)
  show ?thesis
  proof (cases "list_of (id_to_label m) = []")
    case True
    then have "list_of (label_to_id m) = []" using d by simp
    with True show ?thesis
      unfolding convert_y_def Let_def c falsy_list_iff
      by (simp add: enumerate_dict_distinct[OF assms(2)])
  next
    case False
    then have "list_of (label_to_id m) \<noteq> []" using d by simp
    with False show ?thesis
      unfolding convert_y_def Let_def c falsy_list_iff
      by (simp add: d[symmetric])
  qed
qed

lemma convert_y_canon:
  assumes ok: "vocab_ok m"
      and sl: "distinct (set_list y)" "set (set_list y) = set y"
      and run: "convert_y set_list m y = (r, m')"
  shows "vocab_ok m'"
    and "\<exists>ext. list_of (id_to_label m') = list_of (id_to_label m) @ ext"
    and "\<And>ids. r = Inr ids \<Longrightarrow>
           set y \<subseteq> set (list_of (id_to_label m'))
           \<and> ids = map (\<lambda>l. the (map_of (list_of (label_to_id m')) l)) y"
proof -
  let ?c = "capacity (label_size m)"
  let ?n = "length (remdups y)"
  let ?cap = "if ?c \<noteq> 0 then ?c else ?n"
  let ?itl = "if list_of (id_to_label m) = [] then label_order set_list y else list_of (id_to_label m)"
  note lo = label_order_props[of set_list y, OF sl]
  have all: "vocab_ok m'
     \<and> (\<exists>ext. list_of (id_to_label m') = list_of (id_to_label m) @ ext)
     \<and> (\<forall>ids. r = Inr ids \<longrightarrow>
           set y \<subseteq> set (list_of (id_to_label m'))
           \<and> ids = map (\<lambda>l. the (map_of (list_of (label_to_id m')) l)) y)"
  proof (cases "?c \<noteq> 0 \<and> ?c < ?n")
    case True
    then obtain c where "label_size m = Some c" "c \<noteq> 0" "c < ?n"
      by (cases "label_size m") auto
    from convert_y_reject[OF this] run ok show ?thesis by auto
  next
    case False
    then have cond: "?c = 0 \<or> ?n \<le> ?c" by auto
    obtain r0 d' itl' where loop: "label_loop ?cap y (zip ?itl [0..<length ?itl]) ?itl [] = (r0, d', itl')"
      by (cases "label_loop ?cap y (zip ?itl [0..<length ?itl]) ?itl []") auto
    have res: "r = r0" "m' = m\<lparr>label_size := Some ?cap, id_to_label := Some itl', label_to_id := Some d'\<rparr>"
      using run convert_y_loop[OF ok lo(1) cond] loop by simp_all
    have dist: "distinct ?itl" using ok lo(1) by (simp add: vocab_ok_def)
    have len: "length ?itl \<le> ?cap"
      using ok lo(3) cond by (auto simp: vocab_ok_def)
    from label_loop_canon[OF loop dist refl] len
    have canon: "distinct itl'" "d' = zip itl' [0..<length itl']" "length itl' \<le> ?cap"
      and ext: "\<exists>ext. itl' = ?itl @ ext" by auto
    have 1: "vocab_ok m'" using canon by (simp add: res vocab_ok_def)
    have 2: "\<exists>ext. list_of (id_to_label m') = list_of (id_to_label m) @ ext"
      using ext by (auto simp: res)
    have 3: "\<forall>ids. r = Inr ids \<longrightarrow>
           set y \<subseteq> set (list_of (id_to_label m'))
           \<and> ids = map (\<lambda>l. the (map_of (list_of (label_to_id m')) l)) y"
    proof (intro allI impI)
      fix ids assume "r = Inr ids"
      then have "label_loop ?cap y (zip ?itl [0..<length ?itl]) ?itl [] = (Inr ids, d', itl')"
        using loop res by simp
      from label_loop_ids[OF this]
      have "ids = map (\<lambda>l. the (map_of d' l)) y" "set y \<subseteq> dom (map_of d')" by simp_all
      moreover have "dom (map_of d') = set itl'" unfolding canon(2) by simp
      ultimately show "set y \<subseteq> set (list_of (id_to_label m'))
           \<and> ids = map (\<lambda>l. the (map_of (list_of (label_to_id m')) l)) y"
        by (simp add: res)
    qed
    from 1 2 3 show ?thesis by blast
  qed
  from all show "vocab_ok m'" by blast
  from all show "\<exists>ext. list_of (id_to_label m') = list_of (id_to_label m) @ ext" by blast
  from all show "\<And>ids. r = Inr ids \<Longrightarrow>
           set y \<subseteq> set (list_of (id_to_label m'))
           \<and> ids = map (\<lambda>l. the (map_of (list_of (label_to_id m')) l)) y" by blast
qed

lemma label_loop_known:
  "set y \<subseteq> dom (map_of d) \<Longrightarrow>
   label_loop cap y d itl acc = (Inr (acc @ map (\<lambda>l. the (map_of d l)) y), d, itl)"
  by (induction y arbitrary: acc) auto

lemma enum_lookup:
  "distinct xs \<Longrightarrow> map_of (zip xs [0..<length xs]) l = Some i \<longleftrightarrow> i < length xs \<and> xs ! i = l"
proof
  assume d: "distinct xs" and a: "map_of (zip xs [0..<length xs]) l = Some i"
  then have "(l, i) \<in> set (zip xs [0..<length xs])" by (rule_tac map_of_SomeD)
  then show "i < length xs \<and> xs ! i = l"
    by (auto simp: set_zip)
next
  assume d: "distinct xs" and il: "i < length xs \<and> xs ! i = l"
  have 1: "length xs = length [0..<length xs]" by simp
  have 2: "i < length [0..<length xs]" using il by simp
  have step: "map_of (zip xs [0..<length xs]) (xs ! i) = Some ([0..<length xs] ! i)"
    by (rule map_of_zip_nth[OF 1 d 2])
  have e: "[0..<length xs] ! i = i" using il by simp
  show "map_of (zip xs [0..<length xs]) l = Some i"
    using step il unfolding e by blast
qed

lemma enum_decode:
  assumes "distinct xs" and "l \<in> set xs"
  shows "xs ! the (map_of (zip xs [0..<length xs]) l) = l"
proof -
  obtain i where "i < length xs" "xs ! i = l" using assms(2) by (auto simp: in_set_conv_nth)
  then have "map_of (zip xs [0..<length xs]) l = Some i"
    using enum_lookup[OF assms(1), of l i] by blast
  with \<open>xs ! i = l\<close> show ?thesis by simp
qed

lemma convert_y_label_size:
  assumes "capacity (label_size m) \<noteq> 0"
  shows "label_size (snd (convert_y set_list m y)) = label_size m"
  using assms by (cases "label_size m") (auto simp: convert_y_def Let_def split: prod.splits)

lemma vocab_ok_fresh:
  "falsy_list (id_to_label m) \<Longrightarrow> falsy_list (label_to_id m) \<Longrightarrow> vocab_ok m"
  by (simp add: vocab_ok_def falsy_list_iff)

lemma convert_y_first:
  assumes "capacity (label_size m) = 0"
      and "falsy_list (id_to_label m)" and "falsy_list (label_to_id m)"
      and sl: "distinct (set_list y)" "set (set_list y) = set y"
  shows "convert_y set_list m y =
           (Inr (map (\<lambda>l. the (map_of (zip (label_order set_list y) [0..<length (remdups y)]) l)) y),
            m\<lparr>label_size := Some (length (remdups y)),
              id_to_label := Some (label_order set_list y),
              label_to_id := Some (zip (label_order set_list y) [0..<length (remdups y)])\<rparr>)"
proof -
  note lo = label_order_props[of set_list y, OF sl]
  have ok: "vocab_ok m" using assms(2,3) by (rule vocab_ok_fresh)
  have e: "list_of (id_to_label m) = []" using assms(2) by (simp add: falsy_list_iff)
  have "set y \<subseteq> dom (map_of (zip (label_order set_list y) [0..<length (label_order set_list y)]))"
    using lo(2) by simp
  from label_loop_known[OF this]
  show ?thesis
    using convert_y_loop[OF ok lo(1), of ] assms(1)
    by (simp add: e lo(3))
qed

lemma sort_distinct_set: "distinct xs \<Longrightarrow> sort xs = sorted_list_of_set (set xs)"
  by (simp add: sorted_list_of_set_sort_remdups distinct_remdups_id)

lemma label_order_str:
  assumes sl: "distinct (set_list y)" "set (set_list y) = set y" and str: "list_all is_LStr y"
  shows "label_order set_list y = map LStr (sorted_list_of_set (str_of ` set y))"
proof (cases "y = []")
  case True
  then have "set_list y = []" using sl(2) by simp
  with True show ?thesis by (simp add: label_order_def py_sorted_def)
next
  case False
  have all: "list_all is_LStr (set_list y)" using str sl(2) by (simp add: list_all_iff)
  have "set_list y \<noteq> []" using False sl(2) by auto
  then have ni: "\<not> list_all is_LInt (set_list y)"
    using all by (cases "set_list y"; cases "hd (set_list y)") auto
  have "distinct (map (LStr \<circ> str_of) (set_list y))" using sl(1) by (simp only: LStr_str_of[OF all])
  then have "distinct (map str_of (set_list y))" by (simp add: distinct_map inj_on_def)
  then have "sort (map str_of (set_list y)) = sorted_list_of_set (str_of ` set y)"
    using sort_distinct_set[of "map str_of (set_list y)"] sl(2) by simp
  then show ?thesis using all ni by (simp add: label_order_def py_sorted_def)
qed

lemma label_order_int:
  assumes sl: "distinct (set_list y)" "set (set_list y) = set y" and ints: "list_all is_LInt y"
  shows "label_order set_list y = map LInt (sorted_list_of_set (int_of ` set y))"
proof -
  have all: "list_all is_LInt (set_list y)" using ints sl(2) by (simp add: list_all_iff)
  have "distinct (map (LInt \<circ> int_of) (set_list y))" using sl(1) by (simp only: LInt_int_of[OF all])
  then have "distinct (map int_of (set_list y))" by (simp add: distinct_map inj_on_def)
  then have "sort (map int_of (set_list y)) = sorted_list_of_set (int_of ` set y)"
    using sort_distinct_set[of "map int_of (set_list y)"] sl(2) by simp
  then show ?thesis using all by (simp add: label_order_def py_sorted_def)
qed

lemma label_order_mixed:
  assumes sl: "set (set_list y) = set y"
      and "\<not> list_all is_LInt y" and "\<not> list_all is_LStr y"
  shows "label_order set_list y = set_list y"
proof -
  have "\<not> list_all is_LInt (set_list y)" "\<not> list_all is_LStr (set_list y)"
    using assms by (simp_all add: list_all_iff)
  then show ?thesis by (simp add: label_order_def py_sorted_def)
qed

text \<open>
  Claim C4, as amended. On a call of \<^verbatim>\<open>_convert_y\<close> with no preset capacity and an empty
  vocabulary, the vocabulary is built from the full set of distinct labels of the batch
  and every label gets its index in it. The order is sorted order when the labels are all
  strings or all integers; when comparison fails (both kinds are present) it is the order
  in which Python iterates the label set, whatever that is, not the order of first
  occurrence. In particular the labels \<^verbatim>\<open>["b", "a", "c"]\<close> yield the vocabulary
  \<^verbatim>\<open>{a: 0, b: 1, c: 2}\<close> and the ids \<^verbatim>\<open>[1, 0, 2]\<close>, for every iteration order.
\<close>

theorem first_call_vocabulary:
  assumes "label_size m = None"
      and "falsy_list (id_to_label m)" and "falsy_list (label_to_id m)"
      and "distinct (set_list y)" and "set (set_list y) = set y"
      and "distinct (set_list' [LStr ''b'', LStr ''a'', LStr ''c''])"
      and "set (set_list' [LStr ''b'', LStr ''a'', LStr ''c'']) = set [LStr ''b'', LStr ''a'', LStr ''c'']"
  shows "convert_y set_list m y =
           (Inr (map (\<lambda>l. the (map_of (zip (label_order set_list y) [0..<length (remdups y)]) l)) y),
            m\<lparr>label_size := Some (length (remdups y)),
              id_to_label := Some (label_order set_list y),
              label_to_id := Some (zip (label_order set_list y) [0..<length (remdups y)])\<rparr>)
         \<and> distinct (label_order set_list y) \<and> set (label_order set_list y) = set y
         \<and> (list_all is_LStr y \<longrightarrow>
              label_order set_list y = map LStr (sorted_list_of_set (str_of ` set y)))
         \<and> (list_all is_LInt y \<longrightarrow>
              label_order set_list y = map LInt (sorted_list_of_set (int_of ` set y)))
         \<and> (\<not> list_all is_LInt y \<and> \<not> list_all is_LStr y \<longrightarrow>
              label_order set_list y = set_list y)
         \<and> convert_y set_list' m [LStr ''b'', LStr ''a'', LStr ''c''] =
             (Inr [1, 0, 2],
              m\<lparr>label_size := Some 3,
                id_to_label := Some [LStr ''a'', LStr ''b'', LStr ''c''],
                label_to_id := Some [(LStr ''a'', 0), (LStr ''b'', 1), (LStr ''c'', 2)]\<rparr>)"
proof -
  have c: "capacity (label_size m) = 0" using assms(1) by simp
  note lo = label_order_props[of set_list y, OF assms(4,5)]
  have bac: "label_order set_list' [LStr ''b'', LStr ''a'', LStr ''c'']
               = [LStr ''a'', LStr ''b'', LStr ''c'']"
    using label_order_str[of set_list' "[LStr ''b'', LStr ''a'', LStr ''c'']", OF assms(6,7)]
    by (simp add: sorted_list_of_set_sort_remdups)
  have scen: "convert_y set_list' m [LStr ''b'', LStr ''a'', LStr ''c''] =
             (Inr [1, 0, 2],
              m\<lparr>label_size := Some 3,
                id_to_label := Some [LStr ''a'', LStr ''b'', LStr ''c''],
                label_to_id := Some [(LStr ''a'', 0), (LStr ''b'', 1), (LStr ''c'', 2)]\<rparr>)"
    using convert_y_first[of m set_list' "[LStr ''b'', LStr ''a'', LStr ''c'']", OF c assms(2,3,6,7)]
    by (simp add: bac upt_conv_Cons)
  show ?thesis
    using convert_y_first[of m set_list y, OF c assms(2,3,4,5)] lo(1,2)
      label_order_str[of set_list y, OF assms(4,5)] label_order_int[of set_list y, OF assms(4,5)]
      label_order_mixed[of set_list y, OF assms(5)] scen
    by blast
qed

theorem first_call_vocabulary_witness:
  "label_size (new_module 4 2 None LIFO 32 [0]) = None
   \<and> falsy_list (id_to_label (new_module 4 2 None LIFO 32 [0]))
   \<and> falsy_list (label_to_id (new_module 4 2 None LIFO 32 [0]))
   \<and> distinct (remdups [LInt 2, LInt 0, LInt 2, LInt 1])
   \<and> set (remdups [LInt 2, LInt 0, LInt 2, LInt 1]) = set [LInt 2, LInt 0, LInt 2, LInt 1]
   \<and> convert_y remdups (new_module 4 2 None LIFO 32 [0]) [LInt 2, LInt 0, LInt 2, LInt 1] =
       (Inr [2, 0, 2, 1],
        (new_module 4 2 None LIFO 32 [0])\<lparr>label_size := Some 3,
           id_to_label := Some [LInt 0, LInt 1, LInt 2],
           label_to_id := Some [(LInt 0, 0), (LInt 1, 1), (LInt 2, 2)]\<rparr>)
   \<and> convert_y remdups (new_module 4 2 None LIFO 32 [0]) [LStr ''b'', LStr ''a'', LStr ''c''] =
       (Inr [1, 0, 2],
        (new_module 4 2 None LIFO 32 [0])\<lparr>label_size := Some 3,
           id_to_label := Some [LStr ''a'', LStr ''b'', LStr ''c''],
           label_to_id := Some [(LStr ''a'', 0), (LStr ''b'', 1), (LStr ''c'', 2)]\<rparr>)"
proof -
  have a: "label_size (new_module 4 2 None LIFO 32 [0]) = None"
      "falsy_list (id_to_label (new_module 4 2 None LIFO 32 [0]))"
      "falsy_list (label_to_id (new_module 4 2 None LIFO 32 [0]))"
    by (simp_all add: new_module_def)
  have h: "distinct (remdups [LInt 2, LInt 0, LInt 2, LInt 1])"
      "set (remdups [LInt 2, LInt 0, LInt 2, LInt 1]) = set [LInt 2, LInt 0, LInt 2, LInt 1]"
    by (rule distinct_remdups, rule set_remdups)
  have h': "distinct (remdups [LStr ''b'', LStr ''a'', LStr ''c''])"
      "set (remdups [LStr ''b'', LStr ''a'', LStr ''c'']) = set [LStr ''b'', LStr ''a'', LStr ''c'']"
    by (rule distinct_remdups, rule set_remdups)
  note t = first_call_vocabulary[of "new_module 4 2 None LIFO 32 [0]" remdups
      "[LInt 2, LInt 0, LInt 2, LInt 1]" remdups, OF a h h']
  have r1: "convert_y remdups (new_module 4 2 None LIFO 32 [0]) [LInt 2, LInt 0, LInt 2, LInt 1] =
       (Inr [2, 0, 2, 1],
        (new_module 4 2 None LIFO 32 [0])\<lparr>label_size := Some 3,
           id_to_label := Some [LInt 0, LInt 1, LInt 2],
           label_to_id := Some [(LInt 0, 0), (LInt 1, 1), (LInt 2, 2)]\<rparr>)"
    using t by (simp add: label_order_def py_sorted_def upt_conv_Cons)
  have r2: "convert_y remdups (new_module 4 2 None LIFO 32 [0]) [LStr ''b'', LStr ''a'', LStr ''c''] =
       (Inr [1, 0, 2],
        (new_module 4 2 None LIFO 32 [0])\<lparr>label_size := Some 3,
           id_to_label := Some [LStr ''a'', LStr ''b'', LStr ''c''],
           label_to_id := Some [(LStr ''a'', 0), (LStr ''b'', 1), (LStr ''c'', 2)]\<rparr>)"
    using t by blast
  show ?thesis using a h r1 r2 by blast
qed

text \<open>
  Claim C4 as stated fails in its fallback: for the labels \<^verbatim>\<open>[1, "a"]\<close>, which cannot be
  sorted, an iteration of the set that yields \<^verbatim>\<open>"a"\<close> before \<^verbatim>\<open>1\<close> (as CPython does
  whenever the hash of \<^verbatim>\<open>"a"\<close> falls into slot 0 of the table) gives the vocabulary
  \<^verbatim>\<open>{"a": 0, 1: 1}\<close> and the ids \<^verbatim>\<open>[1, 0]\<close>; first-seen order would give
  \<^verbatim>\<open>{1: 0, "a": 1}\<close>.
\<close>

theorem fallback_order_counterexample:
  "distinct ((rev \<circ> remdups) [LInt 1, LStr ''a''])
   \<and> set ((rev \<circ> remdups) [LInt 1, LStr ''a'']) = set [LInt 1, LStr ''a'']
   \<and> convert_y (rev \<circ> remdups) (new_module 4 2 None LIFO 32 [0]) [LInt 1, LStr ''a''] =
       (Inr [1, 0],
        (new_module 4 2 None LIFO 32 [0])\<lparr>label_size := Some 2,
           id_to_label := Some [LStr ''a'', LInt 1],
           label_to_id := Some [(LStr ''a'', 0), (LInt 1, 1)]\<rparr>)"
  by (simp add: convert_y_def new_module_def label_order_def py_sorted_def enumerate_dict_def
      enumerate_eq_zip upt_conv_Cons insert_commute)

lemma convert_y_twice:
  assumes ok: "vocab_ok m"
      and sl: "distinct (set_list y)" "set (set_list y) = set y"
      and sl': "distinct (set_list' y)" "set (set_list' y) = set y"
      and run: "convert_y set_list m y = (Inr ids, m')"
  shows "convert_y set_list' m' y = (Inr ids, m')"
proof -
  let ?c = "capacity (label_size m)"
  let ?n = "length (remdups y)"
  let ?cap = "if ?c \<noteq> 0 then ?c else ?n"
  let ?itl = "if list_of (id_to_label m) = [] then label_order set_list y else list_of (id_to_label m)"
  note lo = label_order_props[of set_list y, OF sl]
  note lo' = label_order_props[of set_list' y, OF sl']
  have cond: "?c = 0 \<or> ?n \<le> ?c"
  proof (rule ccontr)
    assume "\<not> (?c = 0 \<or> ?n \<le> ?c)"
    then obtain c where "label_size m = Some c" "c \<noteq> 0" "c < ?n"
      by (cases "label_size m") auto
    from convert_y_reject[OF this] run show False by simp
  qed
  obtain r0 d' itl' where loop: "label_loop ?cap y (zip ?itl [0..<length ?itl]) ?itl [] = (r0, d', itl')"
    by (cases "label_loop ?cap y (zip ?itl [0..<length ?itl]) ?itl []") auto
  have res: "r0 = Inr ids" "m' = m\<lparr>label_size := Some ?cap, id_to_label := Some itl', label_to_id := Some d'\<rparr>"
    using run convert_y_loop[OF ok lo(1) cond] loop by simp_all
  have dist: "distinct ?itl" using ok lo(1) by (simp add: vocab_ok_def)
  from label_loop_canon[OF loop dist refl]
  have canon: "distinct itl'" "d' = zip itl' [0..<length itl']" by auto
  from label_loop_ids[OF loop[unfolded res(1)]]
  have ids: "ids = map (\<lambda>l. the (map_of d' l)) y" "set y \<subseteq> dom (map_of d')" by simp_all
  have ok': "vocab_ok m'" using convert_y_canon(1)[OF ok sl run] .
  have dom: "dom (map_of d') = set itl'" unfolding canon(2) by simp
  have itl2: "(if list_of (id_to_label m') = [] then label_order set_list' y
               else list_of (id_to_label m')) = itl'"
  proof (cases "itl' = []")
    case True
    then have "set y = {}" using ids(2) dom by simp
    then have "label_order set_list' y = []" using lo'(2) by simp
    with True show ?thesis by (simp add: res(2))
  next
    case False
    then show ?thesis by (simp add: res(2))
  qed
  have cap2: "capacity (label_size m') = ?cap" by (simp add: res(2))
  have cond2: "capacity (label_size m') = 0 \<or> ?n \<le> capacity (label_size m')"
    unfolding cap2 using cond by auto
  have cap3: "(if capacity (label_size m') \<noteq> 0 then capacity (label_size m') else ?n) = ?cap"
    unfolding cap2 by auto
  have known: "label_loop ?cap y d' itl' [] = (Inr ids, d', itl')"
    using label_loop_known[OF ids(2), of ?cap itl' "[]"] ids(1) by simp
  have "convert_y set_list' m' y =
          (Inr ids, m'\<lparr>label_size := Some ?cap, id_to_label := Some itl', label_to_id := Some d'\<rparr>)"
    using convert_y_loop[OF ok' lo'(1) cond2] known
    unfolding itl2 cap3 canon(2)[symmetric] by simp
  moreover have "m'\<lparr>label_size := Some ?cap, id_to_label := Some itl', label_to_id := Some d'\<rparr> = m'"
    by (simp add: res(2))
  ultimately show ?thesis by simp
qed

text \<open>Where the iteration order of the label set cannot show: the vocabulary is not
  empty, so that the set is only counted, or the labels sort.\<close>

lemma convert_y_order_irrelevant:
  assumes sl: "distinct (set_list y)" "set (set_list y) = set y"
      and sl': "distinct (set_list' y)" "set (set_list' y) = set y"
      and "list_of (id_to_label m) \<noteq> [] \<or> list_all is_LInt y \<or> list_all is_LStr y"
  shows "convert_y set_list m y = convert_y set_list' m y"
proof (cases "list_of (id_to_label m) = []")
  case True
  then have eq: "label_order set_list y = label_order set_list' y"
    using assms(5) label_order_int[of set_list y, OF sl] label_order_int[of set_list' y, OF sl']
      label_order_str[of set_list y, OF sl] label_order_str[of set_list' y, OF sl'] by auto
  show ?thesis unfolding convert_y_def eq by (rule refl)
next
  case False
  then show ?thesis by (simp add: convert_y_def falsy_list_iff)
qed

text \<open>Every call keeps the invariant and only appends to \<^verbatim>\<open>_id_to_label\<close>, whatever the
  iteration order each call meets.\<close>

lemma run_calls_with_canon:
  assumes "\<forall>(sl, z) \<in> set calls. distinct (sl z) \<and> set (sl z) = set z"
      and "vocab_ok m"
  shows "vocab_ok (run_calls_with m calls)
       \<and> (\<exists>ext. list_of (id_to_label (run_calls_with m calls)) = list_of (id_to_label m) @ ext)"
  using assms
proof (induction calls arbitrary: m)
  case Nil
  then show ?case by simp
next
  case (Cons c calls)
  obtain sl y where c: "c = (sl, y)" by (cases c) auto
  let ?m' = "snd (convert_y sl m y)"
  have sl: "distinct (sl y)" "set (sl y) = set y" using Cons.prems(1) c by auto
  have run: "convert_y sl m y = (fst (convert_y sl m y), ?m')" by simp
  from convert_y_canon(1,2)[OF Cons.prems(2) sl run]
  have ok': "vocab_ok ?m'" and ext: "\<exists>ext. list_of (id_to_label ?m') = list_of (id_to_label m) @ ext"
    by blast+
  have rest: "\<forall>(sl, z) \<in> set calls. distinct (sl z) \<and> set (sl z) = set z"
    using Cons.prems(1) by simp
  from Cons.IH[OF rest ok'] ext show ?case by (auto simp: c)
qed

text \<open>A new module satisfies \<open>vocab_ok\<close>, and every call keeps it.\<close>

lemma vocab_ok_run_calls:
  assumes "\<forall>y. distinct (set_list y) \<and> set (set_list y) = set y"
  shows "vocab_ok m \<Longrightarrow> vocab_ok (run_calls set_list m ys)"
proof (induction ys arbitrary: m)
  case Nil
  then show ?case by simp
next
  case (Cons y ys)
  have "vocab_ok (snd (convert_y set_list m y))"
    using convert_y_canon(1)[of m set_list y "fst (convert_y set_list m y)" "snd (convert_y set_list m y)"]
      Cons.prems assms by simp
  then show ?case using Cons.IH by simp
qed

lemma vocab_ok_new_module: "vocab_ok (new_module msl mul ls tm bs gpus)"
  by (simp add: vocab_ok_def new_module_def)

text \<open>
  Claim C5. From every vocabulary state that calls of \<^verbatim>\<open>_convert_y\<close> can reach: a batch
  with more distinct labels than the preset capacity fails (line 126) and leaves the
  module unchanged; a call whose unseen labels would take the vocabulary past the capacity
  fails; after every call, successful or not, the vocabulary holds at most
  \<^verbatim>\<open>label_size\<close> labels; and a successful call dropped no label: it returns one id per
  label, and each id decodes back to its label.
\<close>

theorem capacity_never_exceeded:
  assumes "vocab_ok m" and "distinct (set_list y)" and "set (set_list y) = set y"
  shows "(\<forall>c. label_size m = Some c \<and> c \<noteq> 0 \<and> c < card (set y) \<longrightarrow>
             convert_y set_list m y = (Inl (AssertionError unique_y_msg), m))
       \<and> (\<forall>c. label_size m = Some c \<and> c \<noteq> 0
               \<and> c < card (set (list_of (id_to_label m)) \<union> set y) \<longrightarrow>
             (\<exists>e. fst (convert_y set_list m y) = Inl e))
       \<and> vocab_ok (snd (convert_y set_list m y))
       \<and> length (list_of (label_to_id (snd (convert_y set_list m y))))
           \<le> capacity (label_size (snd (convert_y set_list m y)))
       \<and> (\<forall>ids. fst (convert_y set_list m y) = Inr ids \<longrightarrow>
             length ids = length y
             \<and> (\<forall>i < length y.
                   list_of (id_to_label (snd (convert_y set_list m y))) ! (ids ! i) = y ! i))"
proof -
  let ?r = "fst (convert_y set_list m y)"
  let ?m' = "snd (convert_y set_list m y)"
  have run: "convert_y set_list m y = (?r, ?m')" by simp
  note canon = convert_y_canon[OF assms run]
  have ok': "vocab_ok ?m'" by (rule canon(1))
  have 1: "\<forall>c. label_size m = Some c \<and> c \<noteq> 0 \<and> c < card (set y) \<longrightarrow>
             convert_y set_list m y = (Inl (AssertionError unique_y_msg), m)"
    using convert_y_reject[of m _ y set_list] by (auto simp: length_remdups_card_conv)
  have 4: "length (list_of (label_to_id ?m')) \<le> capacity (label_size ?m')"
    using ok' by (simp add: vocab_ok_def)
  have 5: "\<forall>ids. ?r = Inr ids \<longrightarrow>
             length ids = length y
             \<and> (\<forall>i < length y. list_of (id_to_label ?m') ! (ids ! i) = y ! i)"
  proof (intro allI impI)
    fix ids assume r: "?r = Inr ids"
    from canon(3)[OF r]
    have sub: "set y \<subseteq> set (list_of (id_to_label ?m'))"
      and ids: "ids = map (\<lambda>l. the (map_of (list_of (label_to_id ?m')) l)) y" by simp_all
    have d: "distinct (list_of (id_to_label ?m'))"
      and z: "list_of (label_to_id ?m')
            = zip (list_of (id_to_label ?m')) [0..<length (list_of (id_to_label ?m'))]"
      using ok' by (simp_all add: vocab_ok_def)
    have "\<forall>i < length y. list_of (id_to_label ?m') ! (ids ! i) = y ! i"
    proof (intro allI impI)
      fix i assume i: "i < length y"
      then have "y ! i \<in> set (list_of (id_to_label ?m'))" using sub by auto
      from enum_decode[OF d this] i
      show "list_of (id_to_label ?m') ! (ids ! i) = y ! i"
        by (simp add: ids z[symmetric])
    qed
    moreover have "length ids = length y" by (simp add: ids)
    ultimately show "length ids = length y
             \<and> (\<forall>i < length y. list_of (id_to_label ?m') ! (ids ! i) = y ! i)" by blast
  qed
  have 2: "\<forall>c. label_size m = Some c \<and> c \<noteq> 0
               \<and> c < card (set (list_of (id_to_label m)) \<union> set y) \<longrightarrow>
             (\<exists>e. ?r = Inl e)"
  proof (intro allI impI)
    fix c assume c: "label_size m = Some c \<and> c \<noteq> 0
               \<and> c < card (set (list_of (id_to_label m)) \<union> set y)"
    show "\<exists>e. ?r = Inl e"
    proof (cases ?r)
      case (Inl e)
      then show ?thesis by blast
    next
      case (Inr ids)
      from canon(3)[OF Inr] have sub: "set y \<subseteq> set (list_of (id_to_label ?m'))" by simp
      from canon(2) have pre: "set (list_of (id_to_label m)) \<subseteq> set (list_of (id_to_label ?m'))"
        by auto
      have "label_size ?m' = label_size m"
        using convert_y_label_size[of m set_list y] c by simp
      then have "length (list_of (id_to_label ?m')) \<le> c"
        using ok' c by (simp add: vocab_ok_def)
      moreover have "card (set (list_of (id_to_label m)) \<union> set y)
                       \<le> card (set (list_of (id_to_label ?m')))"
        using sub pre by (intro card_mono) auto
      moreover have "card (set (list_of (id_to_label ?m'))) \<le> length (list_of (id_to_label ?m'))"
        by (rule card_length)
      ultimately show ?thesis using c by linarith
    qed
  qed
  from 1 2 ok' 4 5 show ?thesis by blast
qed

text \<open>
  Claim C8, as amended. Encoding the same label sequence from the same vocabulary state
  yields the same ids and the same state whatever the order in which Python iterates the
  label set, provided the vocabulary is not empty or the labels are all integers or all
  strings; from an empty vocabulary with labels that do not sort, the ids follow that
  iteration order. Encoding the sequence again from the state the first encoding left
  yields the same ids and leaves the state as it is. An id assigned to a label stays
  assigned to it, and to no other label, through any sequence of later calls of
  \<^verbatim>\<open>_convert_y\<close>, successful or not, whatever iteration order each of them meets.
\<close>

theorem label_ids_stable:
  assumes "vocab_ok m"
      and "distinct (set_list y) \<and> set (set_list y) = set y"
      and "distinct (set_list' y) \<and> set (set_list' y) = set y"
      and "\<forall>(sl, z) \<in> set calls. distinct (sl z) \<and> set (sl z) = set z"
  shows "(list_of (id_to_label m) \<noteq> [] \<or> list_all is_LInt y \<or> list_all is_LStr y \<longrightarrow>
            convert_y set_list m y = convert_y set_list' m y)
       \<and> (\<forall>ids. fst (convert_y set_list m y) = Inr ids \<longrightarrow>
            convert_y set_list' (snd (convert_y set_list m y)) y
              = (Inr ids, snd (convert_y set_list m y)))
       \<and> (\<forall>l i. map_of (list_of (label_to_id m)) l = Some i \<longrightarrow>
            map_of (list_of (label_to_id (run_calls_with m calls))) l = Some i
            \<and> (\<forall>l'. map_of (list_of (label_to_id (run_calls_with m calls))) l' = Some i
                   \<longrightarrow> l' = l))"
proof -
  have sl: "distinct (set_list y)" "set (set_list y) = set y" using assms(2) by simp_all
  have sl': "distinct (set_list' y)" "set (set_list' y) = set y" using assms(3) by simp_all
  have 0: "list_of (id_to_label m) \<noteq> [] \<or> list_all is_LInt y \<or> list_all is_LStr y \<longrightarrow>
            convert_y set_list m y = convert_y set_list' m y"
    using convert_y_order_irrelevant[of set_list y set_list' m, OF sl sl'] by blast
  have 1: "\<forall>ids. fst (convert_y set_list m y) = Inr ids \<longrightarrow>
            convert_y set_list' (snd (convert_y set_list m y)) y
              = (Inr ids, snd (convert_y set_list m y))"
  proof (intro allI impI)
    fix ids assume "fst (convert_y set_list m y) = Inr ids"
    then have "convert_y set_list m y = (Inr ids, snd (convert_y set_list m y))"
      by (cases "convert_y set_list m y") simp
    from convert_y_twice[of m set_list y set_list' ids "snd (convert_y set_list m y)",
        OF assms(1) sl sl' this]
    show "convert_y set_list' (snd (convert_y set_list m y)) y
              = (Inr ids, snd (convert_y set_list m y))" .
  qed
  let ?mf = "run_calls_with m calls"
  from run_calls_with_canon[OF assms(4) assms(1)]
  have okf: "vocab_ok ?mf"
    and "\<exists>ext. list_of (id_to_label ?mf) = list_of (id_to_label m) @ ext" by blast+
  then obtain ext where ext: "list_of (id_to_label ?mf) = list_of (id_to_label m) @ ext"
    by blast
  have 2: "\<forall>l i. map_of (list_of (label_to_id m)) l = Some i \<longrightarrow>
            map_of (list_of (label_to_id ?mf)) l = Some i
            \<and> (\<forall>l'. map_of (list_of (label_to_id ?mf)) l' = Some i \<longrightarrow> l' = l)"
  proof (intro allI impI)
    fix l i assume a: "map_of (list_of (label_to_id m)) l = Some i"
    have d: "distinct (list_of (id_to_label m))"
      and z: "list_of (label_to_id m)
            = zip (list_of (id_to_label m)) [0..<length (list_of (id_to_label m))]"
      using assms(1) by (simp_all add: vocab_ok_def)
    have d': "distinct (list_of (id_to_label ?mf))"
      and z': "list_of (label_to_id ?mf)
            = zip (list_of (id_to_label ?mf)) [0..<length (list_of (id_to_label ?mf))]"
      using okf by (simp_all add: vocab_ok_def)
    from a have il: "i < length (list_of (id_to_label m))" "list_of (id_to_label m) ! i = l"
      using enum_lookup[OF d, of l i] unfolding z[symmetric] by simp_all
    then have il': "i < length (list_of (id_to_label ?mf))" "list_of (id_to_label ?mf) ! i = l"
      by (simp_all add: ext nth_append)
    have A: "map_of (list_of (label_to_id ?mf)) l = Some i"
      using enum_lookup[OF d', of l i] il' unfolding z'[symmetric] by simp
    have B: "\<forall>l'. map_of (list_of (label_to_id ?mf)) l' = Some i \<longrightarrow> l' = l"
    proof (intro allI impI)
      fix l' assume "map_of (list_of (label_to_id ?mf)) l' = Some i"
      then have "list_of (id_to_label ?mf) ! i = l'"
        using enum_lookup[OF d', of l' i] unfolding z'[symmetric] by simp
      with il'(2) show "l' = l" by simp
    qed
    from A B show "map_of (list_of (label_to_id ?mf)) l = Some i
            \<and> (\<forall>l'. map_of (list_of (label_to_id ?mf)) l' = Some i \<longrightarrow> l' = l)" by blast
  qed
  from 0 1 2 show ?thesis by blast
qed

theorem capacity_never_exceeded_witness:
  "vocab_ok (new_module 4 2 (Some 2) LIFO 32 [0])
   \<and> distinct (remdups [LStr ''a'', LStr ''b'', LStr ''c''])
   \<and> set (remdups [LStr ''a'', LStr ''b'', LStr ''c'']) = set [LStr ''a'', LStr ''b'', LStr ''c'']
   \<and> convert_y remdups (new_module 4 2 (Some 2) LIFO 32 [0]) [LStr ''a'', LStr ''b'', LStr ''c'']
       = (Inl (AssertionError unique_y_msg), new_module 4 2 (Some 2) LIFO 32 [0])
   \<and> length (list_of (label_to_id (snd (convert_y remdups (new_module 4 2 (Some 2) LIFO 32 [0])
                                             [LStr ''a'', LStr ''b'', LStr ''c'']))))
       \<le> capacity (label_size (snd (convert_y remdups (new_module 4 2 (Some 2) LIFO 32 [0])
                                             [LStr ''a'', LStr ''b'', LStr ''c''])))"
proof -
  have ok: "vocab_ok (new_module 4 2 (Some 2) LIFO 32 [0])" by (rule vocab_ok_new_module)
  have h: "distinct (remdups [LStr ''a'', LStr ''b'', LStr ''c''])"
      "set (remdups [LStr ''a'', LStr ''b'', LStr ''c'']) = set [LStr ''a'', LStr ''b'', LStr ''c'']"
    by (rule distinct_remdups, rule set_remdups)
  note t = capacity_never_exceeded[of "new_module 4 2 (Some 2) LIFO 32 [0]" remdups
      "[LStr ''a'', LStr ''b'', LStr ''c'']", OF ok h]
  have ls: "label_size (new_module 4 2 (Some 2) LIFO 32 [0]) = Some 2 \<and> (2::nat) \<noteq> 0
            \<and> 2 < card (set [LStr ''a'', LStr ''b'', LStr ''c''])"
    by (simp add: new_module_def)
  have r: "convert_y remdups (new_module 4 2 (Some 2) LIFO 32 [0]) [LStr ''a'', LStr ''b'', LStr ''c'']
       = (Inl (AssertionError unique_y_msg), new_module 4 2 (Some 2) LIFO 32 [0])"
    using t ls by blast
  show ?thesis using ok h r t by blast
qed

theorem label_ids_stable_witness:
  "vocab_ok ((new_module 4 2 (Some 3) LIFO 32 [0])
       \<lparr>id_to_label := Some [LStr ''a'', LInt 1],
         label_to_id := Some [(LStr ''a'', 0), (LInt 1, 1)]\<rparr>)
   \<and> distinct (remdups [LInt 7, LStr ''a'']) \<and> set (remdups [LInt 7, LStr ''a'']) = set [LInt 7, LStr ''a'']
   \<and> distinct ((rev \<circ> remdups) [LInt 7, LStr ''a''])
   \<and> set ((rev \<circ> remdups) [LInt 7, LStr ''a'']) = set [LInt 7, LStr ''a'']
   \<and> distinct ((rev \<circ> remdups) [LStr ''d''])
   \<and> set ((rev \<circ> remdups) [LStr ''d'']) = set [LStr ''d'']
   \<and> convert_y remdups
         ((new_module 4 2 (Some 3) LIFO 32 [0])
            \<lparr>id_to_label := Some [LStr ''a'', LInt 1],
              label_to_id := Some [(LStr ''a'', 0), (LInt 1, 1)]\<rparr>)
         [LInt 7, LStr ''a'']
       = convert_y (rev \<circ> remdups)
         ((new_module 4 2 (Some 3) LIFO 32 [0])
            \<lparr>id_to_label := Some [LStr ''a'', LInt 1],
              label_to_id := Some [(LStr ''a'', 0), (LInt 1, 1)]\<rparr>)
         [LInt 7, LStr ''a'']
   \<and> fst (convert_y remdups
         ((new_module 4 2 (Some 3) LIFO 32 [0])
            \<lparr>id_to_label := Some [LStr ''a'', LInt 1],
              label_to_id := Some [(LStr ''a'', 0), (LInt 1, 1)]\<rparr>)
         [LInt 7, LStr ''a'']) = Inr [2, 0]
   \<and> convert_y (rev \<circ> remdups)
         (snd (convert_y remdups
            ((new_module 4 2 (Some 3) LIFO 32 [0])
               \<lparr>id_to_label := Some [LStr ''a'', LInt 1],
                 label_to_id := Some [(LStr ''a'', 0), (LInt 1, 1)]\<rparr>)
            [LInt 7, LStr ''a'']))
         [LInt 7, LStr ''a'']
       = (Inr [2, 0],
          snd (convert_y remdups
            ((new_module 4 2 (Some 3) LIFO 32 [0])
               \<lparr>id_to_label := Some [LStr ''a'', LInt 1],
                 label_to_id := Some [(LStr ''a'', 0), (LInt 1, 1)]\<rparr>)
            [LInt 7, LStr ''a'']))
   \<and> map_of (list_of (label_to_id (run_calls_with
            ((new_module 4 2 (Some 3) LIFO 32 [0])
               \<lparr>id_to_label := Some [LStr ''a'', LInt 1],
                 label_to_id := Some [(LStr ''a'', 0), (LInt 1, 1)]\<rparr>)
            [(remdups, [LInt 7, LStr ''a'']), (rev \<circ> remdups, [LStr ''d''])]))) (LInt 1) = Some 1"
proof -
  let ?m = "(new_module 4 2 (Some 3) LIFO 32 [0])
       \<lparr>id_to_label := Some [LStr ''a'', LInt 1],
         label_to_id := Some [(LStr ''a'', 0), (LInt 1, 1)]\<rparr>"
  let ?y = "[LInt 7, LStr ''a'']"
  have ok: "vocab_ok ?m" by (simp add: vocab_ok_def new_module_def upt_conv_Cons)
  have h1: "distinct (remdups ?y) \<and> set (remdups ?y) = set ?y" by simp
  have h2: "distinct ((rev \<circ> remdups) ?y) \<and> set ((rev \<circ> remdups) ?y) = set ?y"
    by (simp add: insert_commute)
  have h3: "distinct ((rev \<circ> remdups) [LStr ''d''])
            \<and> set ((rev \<circ> remdups) [LStr ''d'']) = set [LStr ''d'']" by simp
  have h4: "\<forall>(sl, z) \<in> set [(remdups, ?y), (rev \<circ> remdups, [LStr ''d''])].
              distinct (sl z) \<and> set (sl z) = set z"
    by (simp add: insert_commute)
  note t = label_ids_stable[of ?m remdups ?y "rev \<circ> remdups"
      "[(remdups, ?y), (rev \<circ> remdups, [LStr ''d''])]", OF ok h1 h2 h4]
  have ne: "list_of (id_to_label ?m) \<noteq> []" by simp
  have f: "fst (convert_y remdups ?m ?y) = Inr [2, 0]"
    by (simp add: convert_y_def new_module_def)
  have b: "map_of (list_of (label_to_id ?m)) (LInt 1) = Some 1"
    by (simp add: new_module_def)
  show ?thesis using ok h1 h2 h3 t ne f b by blast
qed

text \<open>
  Two encodings of \<^verbatim>\<open>[1, "a"]\<close> from the same new module, which has no vocabulary yet.
  The labels do not sort, so each encoding keeps the order in which its label set
  iterates: one gives the ids \<^verbatim>\<open>[0, 1]\<close>, the other \<^verbatim>\<open>[1, 0]\<close>.
\<close>

theorem same_state_order_counterexample:
  "vocab_ok (new_module 4 2 None LIFO 32 [0])
   \<and> distinct (remdups [LInt 1, LStr ''a''])
   \<and> set (remdups [LInt 1, LStr ''a'']) = set [LInt 1, LStr ''a'']
   \<and> distinct ((rev \<circ> remdups) [LInt 1, LStr ''a''])
   \<and> set ((rev \<circ> remdups) [LInt 1, LStr ''a'']) = set [LInt 1, LStr ''a'']
   \<and> fst (convert_y remdups (new_module 4 2 None LIFO 32 [0]) [LInt 1, LStr ''a'']) = Inr [0, 1]
   \<and> fst (convert_y (rev \<circ> remdups) (new_module 4 2 None LIFO 32 [0]) [LInt 1, LStr ''a''])
       = Inr [1, 0]"
  by (simp add: vocab_ok_def convert_y_def new_module_def label_order_def py_sorted_def
      enumerate_dict_def enumerate_eq_zip upt_conv_Cons insert_commute)

section \<open>Properties of the batch encoder\<close>

lemma convert_y_batch_size:
  "batch_size (snd (convert_y set_list m y)) = batch_size m"
  by (simp add: convert_y_def Let_def split: prod.splits)

lemma convert_labels_batch_size:
  "batch_size (snd (convert_labels np_array set_list m y)) = batch_size m"
proof (cases y)
  case None
  then show ?thesis by (simp add: convert_labels_def)
next
  case (Some labels)
  have "snd (convert_labels np_array set_list m y) = snd (convert_y set_list m labels)"
    unfolding convert_labels_def Some
    by (cases "convert_y set_list m labels") (auto split: sum.splits)
  then show ?thesis by (simp add: convert_y_batch_size)
qed

lemma snd_convert:
  assumes "assert_legal X y weights X_tokenized = None"
      and "X = None"
      and "is_training \<longrightarrow> y \<noteq> None"
      and "is_parallel \<longrightarrow> capacity (label_size m) \<noteq> 0"
      and "convert_inputs np_array m X_tokenized = (Inr inputs, m1)"
  shows "snd (convert assert_legal set_list np_array m X y weights X_tokenized is_training is_parallel)
           = snd (convert_labels np_array set_list m1 y)"
proof -
  obtain r m2 where cl: "convert_labels np_array set_list m1 y = (r, m2)"
    by (cases "convert_labels np_array set_list m1 y") auto
  show ?thesis
    using assms(1-4)
    by (cases r; cases "convert_weights np_array is_training y weights
                          (map_option (\<lambda>(values_array, mask_array, n_inputs). n_inputs) inputs)")
       (auto simp: convert_def assms(5) cl)
qed

lemma convert_inputs_raises:
  assumes "assert_legal X y weights X_tokenized = None"
      and "X = None"
      and "is_training \<longrightarrow> y \<noteq> None"
      and "is_parallel \<longrightarrow> capacity (label_size m) \<noteq> 0"
      and "convert_inputs np_array m X_tokenized = (Inl e, m1)"
  shows "convert assert_legal set_list np_array m X y weights X_tokenized is_training is_parallel
           = (Inl e, m1)"
  using assms(1-4) by (auto simp: convert_def assms(5))

lemma convert_X_length:
  "convert_X m xs = Inr (ivals, imask) \<Longrightarrow> length ivals = length xs \<and> length imask = length xs"
  by (auto simp: convert_X_def split: sum.splits dest: convert_samples_Inr encode_all_length)

text \<open>
  Claim C9. In every call of \<^verbatim>\<open>convert\<close> that realizes a number of inputs \<open>n_inputs\<close>
  (the checks of lines 46-52 pass, \<^verbatim>\<open>_convert_X\<close> encodes the batch and \<^verbatim>\<open>np.array\<close>
  converts the values and the masks), the module's batch size after the call is
  \<open>max n_inputs worker_count\<close> when \<open>n_inputs\<close> is smaller than the configured batch
  size, and is unchanged otherwise; \<open>n_inputs\<close> is the number of samples and
  \<open>worker_count\<close> the number of GPU ids. When one of the two conversions raises,
  \<open>n_inputs\<close> is never realized: the call raises that exception and the module, with its
  batch size, is left as it was.
\<close>

theorem convert_batch_size:
  assumes "assert_legal X y weights (Some xs) = None"
      and "X = None"
      and "is_training \<longrightarrow> y \<noteq> None"
      and "is_parallel \<longrightarrow> capacity (label_size m) \<noteq> 0"
      and "xs \<noteq> []"
      and "convert_X m xs = Inr (ivals, imask)"
  shows "length ivals = length xs
       \<and> (\<forall>values_array mask_array.
             np_array (PList (map PList ivals)) float32 = Inr values_array
             \<and> np_array (PList (map (\<lambda>row. PList (map PInt row)) imask)) int32 = Inr mask_array
             \<longrightarrow>
             batch_size (snd (convert assert_legal set_list np_array m X y weights (Some xs)
                               is_training is_parallel))
               = (if int (length xs) < batch_size m
                  then max (int (length xs)) (int (length (gpu_ids m)))
                  else batch_size m))
       \<and> (\<forall>e. np_array (PList (map PList ivals)) float32 = Inl e \<longrightarrow>
             convert assert_legal set_list np_array m X y weights (Some xs) is_training is_parallel
               = (Inl e, m))
       \<and> (\<forall>values_array e.
             np_array (PList (map PList ivals)) float32 = Inr values_array
             \<and> np_array (PList (map (\<lambda>row. PList (map PInt row)) imask)) int32 = Inl e
             \<longrightarrow>
             convert assert_legal set_list np_array m X y weights (Some xs) is_training is_parallel
               = (Inl e, m))"
proof -
  have len: "length ivals = length xs" using assms(6) by (simp add: convert_X_length)
  obtain x rest where xs: "xs = x # rest" using assms(5) by (cases xs) auto
  let ?m1 = "if int (length xs) < batch_size m
             then m\<lparr>batch_size := max (int (length xs)) (int (length (gpu_ids m)))\<rparr> else m"
  have bs: "batch_size ?m1 = (if int (length xs) < batch_size m
            then max (int (length xs)) (int (length (gpu_ids m))) else batch_size m)"
    by simp
  have 2: "batch_size (snd (convert assert_legal set_list np_array m X y weights (Some xs)
                               is_training is_parallel))
               = (if int (length xs) < batch_size m
                  then max (int (length xs)) (int (length (gpu_ids m)))
                  else batch_size m)"
    if a: "np_array (PList (map PList ivals)) float32 = Inr values_array"
      and b: "np_array (PList (map (\<lambda>row. PList (map PInt row)) imask)) int32 = Inr mask_array"
    for values_array mask_array
  proof -
    have ci: "convert_inputs np_array m (Some xs)
                = (Inr (Some (values_array, mask_array, length ivals)), ?m1)"
      using assms(6) len a b unfolding xs by simp
    have "batch_size (snd (convert assert_legal set_list np_array m X y weights (Some xs)
                             is_training is_parallel)) = batch_size ?m1"
      using snd_convert[of assert_legal X y weights "Some xs" is_training is_parallel m np_array
          "Some (values_array, mask_array, length ivals)" ?m1 set_list, OF assms(1-4) ci]
      by (simp only: convert_labels_batch_size)
    with bs show ?thesis by simp
  qed
  have 3: "convert assert_legal set_list np_array m X y weights (Some xs) is_training is_parallel
               = (Inl e, m)"
    if a: "np_array (PList (map PList ivals)) float32 = Inl e" for e
  proof -
    have ci: "convert_inputs np_array m (Some xs) = (Inl e, m)"
      using assms(6) a unfolding xs by simp
    show ?thesis
      by (rule convert_inputs_raises[of assert_legal X y weights "Some xs" is_training is_parallel
            m np_array e m set_list, OF assms(1-4) ci])
  qed
  have 4: "convert assert_legal set_list np_array m X y weights (Some xs) is_training is_parallel
               = (Inl e, m)"
    if a: "np_array (PList (map PList ivals)) float32 = Inr values_array"
      and b: "np_array (PList (map (\<lambda>row. PList (map PInt row)) imask)) int32 = Inl e"
    for values_array e
  proof -
    have ci: "convert_inputs np_array m (Some xs) = (Inl e, m)"
      using assms(6) a b unfolding xs by simp
    show ?thesis
      by (rule convert_inputs_raises[of assert_legal X y weights "Some xs" is_training is_parallel
            m np_array e m set_list, OF assms(1-4) ci])
  qed
  from len 2 3 4 show ?thesis by blast
qed

text \<open>
  Two calls on a module of batch size 32 with two workers, each with one sample. The
  sample \<^verbatim>\<open>[[1.0, 2.0]]\<close> is encoded and converted, and the batch size becomes 2. The
  sample \<^verbatim>\<open>[[1.0, [2.0]]]\<close> passes \<^verbatim>\<open>_convert_X\<close>, its only unit having two elements,
  but its values are a ragged list on which \<^verbatim>\<open>np.array\<close> raises: the call raises and the
  batch size stays 32.
\<close>

theorem convert_batch_size_witness:
  "(\<lambda>X y weights X_tokenized. None) None (Some [LStr ''up'']) None (Some [PList [PList [PFloat 1, PFloat 2]]]) = (None :: pyexc option)
   \<and> Some [LStr ''up''] \<noteq> None
   \<and> [PList [PList [PFloat 1, PFloat 2]]] \<noteq> []
   \<and> convert_X (new_module 4 2 None LIFO 32 [0, 1]) [PList [PList [PFloat 1, PFloat 2]]] = Inr ([[PList [PFloat 1, PFloat 2], PList [PInt 0, PInt 0], PList [PInt 0, PInt 0]]], [[1, 1, 0, 0]])
   \<and> (\<lambda>v d. if v = PList [PList [PList [PFloat 1, PList [PFloat 2]],
                                      PList [PInt 0, PInt 0], PList [PInt 0, PInt 0]]]
                 then Inl (ValueError ''setting an array element with a sequence.'')
                 else Inr v) (PList (map PList [[PList [PFloat 1, PFloat 2], PList [PInt 0, PInt 0], PList [PInt 0, PInt 0]]])) float32 = Inr (PList (map PList [[PList [PFloat 1, PFloat 2], PList [PInt 0, PInt 0], PList [PInt 0, PInt 0]]]))
   \<and> (\<lambda>v d. if v = PList [PList [PList [PFloat 1, PList [PFloat 2]],
                                      PList [PInt 0, PInt 0], PList [PInt 0, PInt 0]]]
                 then Inl (ValueError ''setting an array element with a sequence.'')
                 else Inr v) (PList (map (\<lambda>row. PList (map PInt row)) [[1, 1, 0, 0]])) int32
       = Inr (PList (map (\<lambda>row. PList (map PInt row)) [[1, 1, 0, 0]]))
   \<and> batch_size (snd (convert (\<lambda>X y weights X_tokenized. None) remdups
          (\<lambda>v d. if v = PList [PList [PList [PFloat 1, PList [PFloat 2]],
                                      PList [PInt 0, PInt 0], PList [PInt 0, PInt 0]]]
                 then Inl (ValueError ''setting an array element with a sequence.'')
                 else Inr v)
          (new_module 4 2 None LIFO 32 [0, 1]) None (Some [LStr ''up'']) None (Some [PList [PList [PFloat 1, PFloat 2]]]) True False)) = 2
   \<and> [PList [PList [PFloat 1, PList [PFloat 2]]]] \<noteq> []
   \<and> convert_X (new_module 4 2 None LIFO 32 [0, 1]) [PList [PList [PFloat 1, PList [PFloat 2]]]] = Inr ([[PList [PFloat 1, PList [PFloat 2]], PList [PInt 0, PInt 0], PList [PInt 0, PInt 0]]], [[1, 1, 0, 0]])
   \<and> (\<lambda>v d. if v = PList [PList [PList [PFloat 1, PList [PFloat 2]],
                                      PList [PInt 0, PInt 0], PList [PInt 0, PInt 0]]]
                 then Inl (ValueError ''setting an array element with a sequence.'')
                 else Inr v) (PList (map PList [[PList [PFloat 1, PList [PFloat 2]], PList [PInt 0, PInt 0], PList [PInt 0, PInt 0]]])) float32
       = Inl (ValueError ''setting an array element with a sequence.'')
   \<and> convert (\<lambda>X y weights X_tokenized. None) remdups
          (\<lambda>v d. if v = PList [PList [PList [PFloat 1, PList [PFloat 2]],
                                      PList [PInt 0, PInt 0], PList [PInt 0, PInt 0]]]
                 then Inl (ValueError ''setting an array element with a sequence.'')
                 else Inr v)
          (new_module 4 2 None LIFO 32 [0, 1]) None (Some [LStr ''up'']) None (Some [PList [PList [PFloat 1, PList [PFloat 2]]]]) True False
       = (Inl (ValueError ''setting an array element with a sequence.''), (new_module 4 2 None LIFO 32 [0, 1]))
   \<and> batch_size (new_module 4 2 None LIFO 32 [0, 1]) = 32"
proof -
  let ?np = "(\<lambda>v d. if v = PList [PList [PList [PFloat 1, PList [PFloat 2]],
                                      PList [PInt 0, PInt 0], PList [PInt 0, PInt 0]]]
                 then Inl (ValueError ''setting an array element with a sequence.'')
                 else Inr v)"
  let ?al = "(\<lambda>X y weights X_tokenized. None) :: pyval list option \<Rightarrow> label list option \<Rightarrow> real list option
                \<Rightarrow> pyval list option \<Rightarrow> pyexc option"
  let ?m = "(new_module 4 2 None LIFO 32 [0, 1])"
  have ca: "convert_X ?m [PList [PList [PFloat 1, PFloat 2]]] = Inr ([[PList [PFloat 1, PFloat 2], PList [PInt 0, PInt 0], PList [PInt 0, PInt 0]]], [[1, 1, 0, 0]])"
    by (simp add: convert_X_def convert_x_def encode_segments_def truncate_segments_def
        new_module_def zero_row_def padding_eq numeral_eq_Suc)
  have cb: "convert_X ?m [PList [PList [PFloat 1, PList [PFloat 2]]]] = Inr ([[PList [PFloat 1, PList [PFloat 2]], PList [PInt 0, PInt 0], PList [PInt 0, PInt 0]]], [[1, 1, 0, 0]])"
    by (simp add: convert_X_def convert_x_def encode_segments_def truncate_segments_def
        new_module_def zero_row_def padding_eq numeral_eq_Suc)
  have na: "?np (PList (map PList [[PList [PFloat 1, PFloat 2], PList [PInt 0, PInt 0], PList [PInt 0, PInt 0]]])) float32 = Inr (PList (map PList [[PList [PFloat 1, PFloat 2], PList [PInt 0, PInt 0], PList [PInt 0, PInt 0]]]))"
    by simp
  have nm: "?np (PList (map (\<lambda>row. PList (map PInt row)) [[1, 1, 0, 0]])) int32
       = Inr (PList (map (\<lambda>row. PList (map PInt row)) [[1, 1, 0, 0]]))"
    by simp
  have nb: "?np (PList (map PList [[PList [PFloat 1, PList [PFloat 2]], PList [PInt 0, PInt 0], PList [PInt 0, PInt 0]]])) float32
       = Inl (ValueError ''setting an array element with a sequence.'')"
    by simp
  note ta = convert_batch_size[of ?al None "Some [LStr ''up'']" None "[PList [PList [PFloat 1, PFloat 2]]]" True False ?m
      "[[PList [PFloat 1, PFloat 2], PList [PInt 0, PInt 0], PList [PInt 0, PInt 0]]]" "[[1, 1, 0, 0]]" ?np remdups, OF _ _ _ _ _ ca]
  note tb = convert_batch_size[of ?al None "Some [LStr ''up'']" None "[PList [PList [PFloat 1, PList [PFloat 2]]]]" True False ?m
      "[[PList [PFloat 1, PList [PFloat 2]], PList [PInt 0, PInt 0], PList [PInt 0, PInt 0]]]" "[[1, 1, 0, 0]]" ?np remdups, OF _ _ _ _ _ cb]
  have ra: "batch_size (snd (convert ?al remdups ?np ?m None (Some [LStr ''up'']) None
                               (Some [PList [PList [PFloat 1, PFloat 2]]]) True False)) = 2"
  proof -
    have "batch_size (snd (convert ?al remdups ?np ?m None (Some [LStr ''up'']) None
                               (Some [PList [PList [PFloat 1, PFloat 2]]]) True False))
            = (if int (length [PList [PList [PFloat 1, PFloat 2]]]) < batch_size ?m
               then max (int (length [PList [PList [PFloat 1, PFloat 2]]])) (int (length (gpu_ids ?m)))
               else batch_size ?m)"
      using ta na nm by blast
    then show ?thesis by (simp add: new_module_def)
  qed
  have rb: "convert ?al remdups ?np ?m None (Some [LStr ''up'']) None (Some [PList [PList [PFloat 1, PList [PFloat 2]]]]) True False
       = (Inl (ValueError ''setting an array element with a sequence.''), ?m)"
    using tb nb by blast
  have bs: "batch_size ?m = 32" by (simp add: new_module_def)
  show ?thesis using ca cb na nm nb ra rb bs by simp
qed

section \<open>Properties of the initialization\<close>

text \<open>
  Claim C6. When \<^verbatim>\<open>run\<close> is called with \<^verbatim>\<open>reinit_all\<close> false on a module whose session is
  built, the only initialization it performs is that of the global variables that are not
  yet initialized, all of them and no others; when there is none it initializes nothing
  and only logs; in both cases the session mode becomes \<^verbatim>\<open>"infer"\<close>. Consequently, when the
  call is repeated and rebuilding the graph declares no new variable, the second call
  initializes nothing.
\<close>

theorem incremental_initialization:
  assumes "session_built s"
  shows "performed (run parallel_forward False ignore_checkpoint s) =
           performed s @
             (if set (parallel_forward (global_variables s)) \<subseteq> inited_vars s
              then [LogAlreadyInitialized]
              else [InitVariables
                      (filter (\<lambda>var. var \<notin> inited_vars s) (parallel_forward (global_variables s)))
                      ignore_checkpoint])
       \<and> set (filter (\<lambda>var. var \<notin> inited_vars s) (parallel_forward (global_variables s)))
           = set (parallel_forward (global_variables s)) - inited_vars s
       \<and> session_mode (run parallel_forward False ignore_checkpoint s) = Some ''infer''
       \<and> session_built (run parallel_forward False ignore_checkpoint s)
       \<and> set (global_variables (run parallel_forward False ignore_checkpoint s))
           \<subseteq> inited_vars (run parallel_forward False ignore_checkpoint s)
       \<and> (set (parallel_forward (parallel_forward (global_variables s)))
             \<subseteq> set (parallel_forward (global_variables s)) \<longrightarrow>
           performed (run parallel_forward False ignore_checkpoint'
                        (run parallel_forward False ignore_checkpoint s))
             = performed (run parallel_forward False ignore_checkpoint s) @ [LogAlreadyInitialized]
           \<and> inited_vars (run parallel_forward False ignore_checkpoint'
                        (run parallel_forward False ignore_checkpoint s))
             = inited_vars (run parallel_forward False ignore_checkpoint s))"
proof -
  let ?gv = "parallel_forward (global_variables s)"
  let ?vars = "filter (\<lambda>var. var \<notin> inited_vars s) ?gv"
  have e: "?vars = [] \<longleftrightarrow> set ?gv \<subseteq> inited_vars s"
    by (auto simp: filter_empty_conv)
  have 1: "performed (run parallel_forward False ignore_checkpoint s) =
           performed s @ (if set ?gv \<subseteq> inited_vars s then [LogAlreadyInitialized]
              else [InitVariables ?vars ignore_checkpoint])"
    using assms e by (simp add: run_def Let_def init_variables_def)
  have 2: "set ?vars = set ?gv - inited_vars s" by auto
  have 3: "session_mode (run parallel_forward False ignore_checkpoint s) = Some ''infer''"
    by (simp add: run_def Let_def)
  have 4: "session_built (run parallel_forward False ignore_checkpoint s)"
    using assms by (simp add: run_def Let_def init_variables_def)
  have gv: "global_variables (run parallel_forward False ignore_checkpoint s) = ?gv"
    using assms by (simp add: run_def Let_def init_variables_def)
  have iv: "inited_vars (run parallel_forward False ignore_checkpoint s)
              = inited_vars s \<union> set ?gv"
    using assms e by (auto simp: run_def Let_def init_variables_def)
  have 5: "set (global_variables (run parallel_forward False ignore_checkpoint s))
           \<subseteq> inited_vars (run parallel_forward False ignore_checkpoint s)"
    by (simp add: gv iv)
  have 6: "set (parallel_forward ?gv) \<subseteq> set ?gv \<longrightarrow>
           performed (run parallel_forward False ignore_checkpoint'
                        (run parallel_forward False ignore_checkpoint s))
             = performed (run parallel_forward False ignore_checkpoint s) @ [LogAlreadyInitialized]
           \<and> inited_vars (run parallel_forward False ignore_checkpoint'
                        (run parallel_forward False ignore_checkpoint s))
             = inited_vars (run parallel_forward False ignore_checkpoint s)"
  proof
    assume sub: "set (parallel_forward ?gv) \<subseteq> set ?gv"
    let ?s' = "run parallel_forward False ignore_checkpoint s"
    have f: "filter (\<lambda>var. var \<notin> inited_vars ?s') (parallel_forward (global_variables ?s')) = []"
      using sub by (auto simp: filter_empty_conv gv iv)
    show "performed (run parallel_forward False ignore_checkpoint' ?s')
             = performed ?s' @ [LogAlreadyInitialized]
           \<and> inited_vars (run parallel_forward False ignore_checkpoint' ?s') = inited_vars ?s'"
      using 4 f by (simp add: run_def[of parallel_forward False ignore_checkpoint' ?s'] Let_def)
  qed
  from 1 2 3 4 5 6 show ?thesis by blast
qed

theorem incremental_initialization_witness:
  "session_built \<lparr>global_variables = [''w'', ''b''], inited_vars = {''w''},
                  session_built = True, session_mode = None, performed = []\<rparr>
   \<and> set ((\<lambda>gv. remdups (gv @ [''cls''])) ((\<lambda>gv. remdups (gv @ [''cls''])) [''w'', ''b'']))
       \<subseteq> set ((\<lambda>gv. remdups (gv @ [''cls''])) [''w'', ''b''])
   \<and> performed (run (\<lambda>gv. remdups (gv @ [''cls''])) False True
        \<lparr>global_variables = [''w'', ''b''], inited_vars = {''w''},
          session_built = True, session_mode = None, performed = []\<rparr>)
       = [InitVariables [''b'', ''cls''] True]
   \<and> session_mode (run (\<lambda>gv. remdups (gv @ [''cls''])) False True
        \<lparr>global_variables = [''w'', ''b''], inited_vars = {''w''},
          session_built = True, session_mode = None, performed = []\<rparr>) = Some ''infer''
   \<and> performed (run (\<lambda>gv. remdups (gv @ [''cls''])) False False
        (run (\<lambda>gv. remdups (gv @ [''cls''])) False True
           \<lparr>global_variables = [''w'', ''b''], inited_vars = {''w''},
             session_built = True, session_mode = None, performed = []\<rparr>))
       = [InitVariables [''b'', ''cls''] True, LogAlreadyInitialized]"
  using incremental_initialization[of
      "\<lparr>global_variables = [''w'', ''b''], inited_vars = {''w''},
          session_built = True, session_mode = None, performed = []\<rparr>"
      "\<lambda>gv. remdups (gv @ [''cls''])" True False]
  by simp

section \<open>The caller's samples are not changed\<close>

lemma deepcopy_frame:
  "deepcopy n h memo v = Some (v', h', memo') \<Longrightarrow> N \<le> length h \<Longrightarrow>
     (\<forall>(a, b) \<in> set memo. N \<le> b) \<Longrightarrow>
     take N h' = take N h \<and> length h \<le> length h' \<and> (\<forall>(a, b) \<in> set memo'. N \<le> b)
     \<and> (\<forall>a. v = VRef a \<and> a < length h \<longrightarrow> (\<exists>b. v' = VRef b \<and> N \<le> b))"
  and deepcopy_list_frame:
  "deepcopy_list n h memo b es = Some (h', memo') \<Longrightarrow> N \<le> length h \<Longrightarrow> N \<le> b \<Longrightarrow>
     (\<forall>(a, b) \<in> set memo. N \<le> b) \<Longrightarrow>
     take N h' = take N h \<and> length h \<le> length h' \<and> (\<forall>(a, b) \<in> set memo'. N \<le> b)"
proof (induction n h memo v and n h memo b es arbitrary: v' h' memo' and h' memo'
    rule: deepcopy_deepcopy_list.induct)
  case (1 n h memo f)
  then show ?case by auto
next
  case (2 n h memo i)
  then show ?case by auto
next
  case (3 h memo a)
  then show ?case by simp
next
  case (4 n h memo a)
  note IH = "4.IH" and run = "4.prems"(1) and N = "4.prems"(2) and mm = "4.prems"(3)
  show ?case
  proof (cases "map_of memo a")
    case (Some b)
    then have "(a, b) \<in> set memo" by (rule map_of_SomeD)
    then have "N \<le> b" using mm by auto
    with Some run mm show ?thesis by auto
  next
    case None
    show ?thesis
    proof (cases "a < length h")
      case True
      from run None True obtain h2 memo2 where
        dl: "deepcopy_list n (h @ [[]]) ((a, length h) # memo) (length h) (h ! a) = Some (h2, memo2)"
        and res: "v' = VRef (length h)" "h' = h2" "memo' = memo2"
        by (auto split: option.splits)
      have 1: "N \<le> length (h @ [[]])" using N by simp
      have 2: "\<forall>(a, b) \<in> set ((a, length h) # memo). N \<le> b" using mm N by auto
      from IH[OF None True dl 1 N 2] N
      show ?thesis by (auto simp: res)
    next
      case False
      with run None mm show ?thesis by auto
    qed
  qed
next
  case (5 n h memo b)
  then show ?case by auto
next
  case (6 n h memo b e es)
  note IH = "6.IH" and run = "6.prems"(1) and N = "6.prems"(2) and b = "6.prems"(3)
    and mm = "6.prems"(4)
  from run obtain v h1 memo1 where
    dc: "deepcopy n h memo e = Some (v, h1, memo1)"
    and dl: "deepcopy_list n (h1[b := h1 ! b @ [v]]) memo1 b es = Some (h', memo')"
    by (auto split: option.splits)
  from IH(1)[OF dc N mm]
  have f1: "take N h1 = take N h" "length h \<le> length h1" "\<forall>(a, b) \<in> set memo1. N \<le> b"
    by auto
  have N1: "N \<le> length (h1[b := h1 ! b @ [v]])" using N f1(2) by simp
  from IH(2)[OF dc refl refl dl N1 b f1(3)]
  have f2: "take N h' = take N (h1[b := h1 ! b @ [v]])" "length (h1[b := h1 ! b @ [v]]) \<le> length h'"
    "\<forall>(a, b) \<in> set memo'. N \<le> b" by auto
  have "take N (h1[b := h1 ! b @ [v]]) = take N h1" using b by simp
  with f1 f2 show ?case by simp
qed

lemma getitem0_at_Inr: "getitem0_at h x = Inr v \<Longrightarrow> \<exists>a. x = VRef a \<and> a < length h"
  by (cases x) (auto split: if_splits)

lemma convert_x_at_frame:
  assumes "convert_x_at fuel h x = Some (r, h')" and "N \<le> length h"
  shows "take N h' = take N h \<and> length h \<le> length h'
         \<and> (\<forall>c. r = Inr c \<longrightarrow> (\<exists>b. c = VRef b \<and> N \<le> b))"
proof (cases "\<exists>c. r = Inr c")
  case False
  then have "h' = h"
    using assms(1)
    by (auto simp: convert_x_at_def split: sum.splits if_splits option.splits)
  with False show ?thesis by simp
next
  case True
  then obtain c where r: "r = Inr c" by blast
  from assms(1) r obtain x0 memo where x0: "getitem0_at h x = Inr x0"
    and dc: "deepcopy fuel h [] x = Some (c, h', memo)"
    by (auto simp: convert_x_at_def split: sum.splits if_splits option.splits)
  from getitem0_at_Inr[OF x0] obtain a where a: "x = VRef a" "a < length h" by blast
  from deepcopy_frame[OF dc assms(2)] a r show ?thesis by auto
qed

lemma convert_samples_at_frame:
  "convert_samples_at fuel h X = Some (r, h') \<Longrightarrow> N \<le> length h \<Longrightarrow>
   take N h' = take N h \<and> length h \<le> length h'
   \<and> (\<forall>cs. r = Inr cs \<longrightarrow> (\<forall>c \<in> set cs. \<exists>b. c = VRef b \<and> N \<le> b))"
proof (induction X arbitrary: h r h')
  case Nil
  then show ?case by auto
next
  case (Cons sample rest)
  from Cons.prems(1) obtain r1 h1 where cx: "convert_x_at fuel h sample = Some (r1, h1)"
    by (auto split: option.splits)
  note f1 = convert_x_at_frame[OF cx Cons.prems(2)]
  show ?case
  proof (cases r1)
    case (Inl e)
    with Cons.prems(1) cx have "h' = h1" "r = Inl (WrongInputFormatAt sample e)" by auto
    with f1 show ?thesis by auto
  next
    case (Inr c)
    with Cons.prems(1) cx obtain r2 where
      cs: "convert_samples_at fuel h1 rest = Some (r2, h')"
      and r: "r = (case r2 of Inl e \<Rightarrow> Inl e | Inr cs \<Rightarrow> Inr (c # cs))"
      by (auto split: option.splits sum.splits)
    have N1: "N \<le> length h1" using f1 Cons.prems(2) by simp
    from Cons.IH[OF cs N1] f1 Inr r show ?thesis
      by (cases r2) auto
  qed
qed

lemma padding_at_frame:
  "padding_at n mul h acc = (h', ivals', imask') \<Longrightarrow> N \<le> length h \<Longrightarrow>
   take N h' = take N h \<and> length h \<le> length h'"
proof (induction n mul h acc arbitrary: h' ivals' imask' rule: padding_at.induct)
  case (1 mul h ivals imask)
  then show ?case by simp
next
  case (2 n mul h ivals imask)
  from "2.prems"(1)
  have run: "padding_at n mul (h @ [replicate (nat mul) (VInt 0)])
               (ivals @ [VRef (length h)], imask @ [0]) = (h', ivals', imask')" by simp
  have "N \<le> length (h @ [replicate (nat mul) (VInt 0)])" using "2.prems"(2) by simp
  from "2.IH"[OF run this] "2.prems"(2) show ?case by simp
qed

lemma encode_segments_at_frame:
  assumes "encode_segments_at m h segments = (r, h')" and "N \<le> length h"
      and "\<exists>b. segments = VRef b \<and> N \<le> b"
  shows "take N h' = take N h \<and> length h \<le> length h'"
proof -
  obtain b where b: "segments = VRef b" "N \<le> b" using assms(3) by blast
  let ?h1 = "h[b := truncate_segments (h ! b) (max_seq_length m - 1) (truncate_method m)]"
  have h1: "take N ?h1 = take N h" "length ?h1 = length h" using b(2) by simp_all
  show ?thesis
  proof (cases "b < length h")
    case False
    with assms(1) b have "h' = h" by (simp add: encode_segments_at_def)
    then show ?thesis by simp
  next
    case True
    show ?thesis
    proof (cases "append_units_at (max_unit_length m) ?h1 (?h1 ! b) ([], [])")
      case (Inl e)
      with assms(1) b True have "h' = ?h1" by (simp add: encode_segments_at_def Let_def)
      with h1 show ?thesis by simp
    next
      case (Inr p)
      obtain ivals imask where p: "p = (ivals, imask)" by (cases p)
      obtain h2 iv2 im2 where pad: "padding_at (nat (max_seq_length m - 1 - int (length ivals)))
                               (max_unit_length m) ?h1 (ivals, imask @ [1]) = (h2, iv2, im2)"
        by (cases "padding_at (nat (max_seq_length m - 1 - int (length ivals)))
                               (max_unit_length m) ?h1 (ivals, imask @ [1])") auto
      from assms(1) b True Inr p pad have "h' = h2"
        by (simp add: encode_segments_at_def Let_def)
      moreover have "N \<le> length ?h1" using assms(2) by simp
      from padding_at_frame[OF pad this] have "take N h2 = take N ?h1" "length ?h1 \<le> length h2"
        by simp_all
      ultimately show ?thesis using h1 by simp
    qed
  qed
qed

lemma encode_all_at_frame:
  "encode_all_at m h cs = (r, h') \<Longrightarrow> N \<le> length h \<Longrightarrow>
   \<forall>c \<in> set cs. \<exists>b. c = VRef b \<and> N \<le> b \<Longrightarrow>
   take N h' = take N h \<and> length h \<le> length h'"
proof (induction cs arbitrary: h r h')
  case Nil
  then show ?case by simp
next
  case (Cons c cs)
  obtain r1 h1 where es: "encode_segments_at m h c = (r1, h1)"
    by (cases "encode_segments_at m h c") auto
  have "\<exists>b. c = VRef b \<and> N \<le> b" using Cons.prems(3) by simp
  note f1 = encode_segments_at_frame[OF es Cons.prems(2) this]
  show ?case
  proof (cases r1)
    case (Inl e)
    with Cons.prems(1) es have "h' = h1" by simp
    with f1 show ?thesis by simp
  next
    case (Inr p)
    obtain r2 h2 where ea: "encode_all_at m h1 cs = (r2, h2)"
      by (cases "encode_all_at m h1 cs") auto
    from Cons.prems(1) es Inr ea have "h' = h2"
      by (cases p; cases r2) auto
    moreover have "N \<le> length h1" using f1 Cons.prems(2) by simp
    from Cons.IH[OF ea this] Cons.prems(3)
    have "take N h2 = take N h1" "length h1 \<le> length h2" by simp_all
    ultimately show ?thesis using f1 by simp
  qed
qed

text \<open>
  Claim C10. Whatever the store and the batch, a call of \<^verbatim>\<open>_convert_X\<close> that returns or
  raises leaves every list that existed before the call exactly as it was: the samples,
  their units and any other list of the caller. Truncation and the collecting of rows act
  on the copies that \<^verbatim>\<open>_convert_x\<close> made and on new lists only.
\<close>

theorem convert_X_keeps_callers_lists:
  assumes "convert_X_at fuel m h X = Some (r, h')"
  shows "length h \<le> length h' \<and> take (length h) h' = h
         \<and> (\<forall>a < length h. h' ! a = h ! a)"
proof -
  from assms obtain r1 h1 where cs: "convert_samples_at fuel h X = Some (r1, h1)"
    by (auto simp: convert_X_at_def split: option.splits)
  note f1 = convert_samples_at_frame[OF cs order_refl]
  have fr: "take (length h) h' = take (length h) h \<and> length h \<le> length h'"
  proof (cases r1)
    case (Inl e)
    with assms cs have "h' = h1" by (simp add: convert_X_at_def)
    with f1 show ?thesis by simp
  next
    case (Inr segs)
    obtain r2 h2 where ea: "encode_all_at m h1 segs = (r2, h2)"
      by (cases "encode_all_at m h1 segs") auto
    from assms cs Inr ea have "h' = h2"
      by (cases r2) (auto simp: convert_X_at_def)
    moreover have "length h \<le> length h1" using f1 by simp
    moreover have "\<forall>c \<in> set segs. \<exists>b. c = VRef b \<and> length h \<le> b" using f1 Inr by simp
    ultimately show ?thesis
      using encode_all_at_frame[OF ea, of "length h"] f1 by simp
  qed
  then have t: "take (length h) h' = h" and l: "length h \<le> length h'" by simp_all
  have "\<forall>a < length h. h' ! a = h ! a"
  proof (intro allI impI)
    fix a assume a: "a < length h"
    then have "take (length h) h' ! a = h' ! a" by simp
    with t show "h' ! a = h ! a" by simp
  qed
  with t l show ?thesis by simp
qed

theorem convert_X_keeps_callers_lists_witness:
  "convert_X_at 2 (new_module 2 2 None FIFO 32 [0])
      [[VFloat 1, VFloat 2], [VFloat 3, VFloat 4], [VRef 0, VRef 1]] [VRef 2]
     = Some (Inr ([[VRef 4]], [[1, 1]]),
             [[VFloat 1, VFloat 2], [VFloat 3, VFloat 4], [VRef 0, VRef 1],
              [VRef 4], [VFloat 1, VFloat 2], [VFloat 3, VFloat 4]])
   \<and> take 3 [[VFloat 1, VFloat 2], [VFloat 3, VFloat 4], [VRef 0, VRef 1],
               [VRef 4], [VFloat 1, VFloat 2], [VFloat 3, VFloat 4]]
       = [[VFloat 1, VFloat 2], [VFloat 3, VFloat 4], [VRef 0, VRef 1]]"
proof -
  have run: "convert_X_at 2 (new_module 2 2 None FIFO 32 [0])
      [[VFloat 1, VFloat 2], [VFloat 3, VFloat 4], [VRef 0, VRef 1]] [VRef 2]
     = Some (Inr ([[VRef 4]], [[1, 1]]),
             [[VFloat 1, VFloat 2], [VFloat 3, VFloat 4], [VRef 0, VRef 1],
              [VRef 4], [VFloat 1, VFloat 2], [VFloat 3, VFloat 4]])"
    by (simp add: convert_X_at_def convert_x_at_def encode_segments_at_def
        truncate_segments_def new_module_def numeral_eq_Suc)
  from convert_X_keeps_callers_lists[OF run] run show ?thesis by simp
qed

section \<open>The store model returns on samples of the specified shape\<close>

lemma take_length_le: "take (length h0) h = h0 \<Longrightarrow> length h0 \<le> length h"
proof -
  assume a: "take (length h0) h = h0"
  have "length (take (length h0) h) = min (length h) (length h0)" by simp
  with a show ?thesis by simp
qed

lemma take_nth_same: "take (length h0) h = h0 \<Longrightarrow> c < length h0 \<Longrightarrow> h ! c = h0 ! c"
proof -
  assume a: "take (length h0) h = h0" and c: "c < length h0"
  have "take (length h0) h ! c = h ! c" using c by simp
  with a show ?thesis by simp
qed

lemma deepcopy_number: "\<not> is_list_ref e \<Longrightarrow> deepcopy n h memo e = Some (e, h, memo)"
  by (cases e) auto

lemma deepcopy_list_numbers:
  "list_all (\<lambda>w. \<not> is_list_ref w) es \<Longrightarrow> \<exists>h' memo'. deepcopy_list n h memo b es = Some (h', memo')"
  by (induction es arbitrary: h memo) (auto simp: deepcopy_number)

lemma deepcopy_unit:
  assumes "numbers_at h c"
  shows "\<exists>v h' memo'. deepcopy (Suc n) h memo (VRef c) = Some (v, h', memo')"
proof (cases "map_of memo c")
  case (Some b)
  then show ?thesis by simp
next
  case None
  have "list_all (\<lambda>w. \<not> is_list_ref w) (h ! c)" "c < length h"
    using assms by (simp_all add: numbers_at_def)
  from deepcopy_list_numbers[OF this(1), of n "h @ [[]]" "(c, length h) # memo" "length h"] this(2) None
  show ?thesis by auto
qed

lemma deepcopy_list_units:
  assumes "list_all (\<lambda>u. case u of VRef c \<Rightarrow> numbers_at h0 c | _ \<Rightarrow> False) us"
      and "take (length h0) h = h0" and "length h0 \<le> b"
      and "\<forall>(a, b) \<in> set memo. length h0 \<le> b"
  shows "\<exists>h' memo'. deepcopy_list (Suc n) h memo b us = Some (h', memo')"
  using assms
proof (induction us arbitrary: h memo)
  case Nil
  then show ?case by simp
next
  case (Cons u us)
  from Cons.prems(1) obtain c where u: "u = VRef c" and c0: "numbers_at h0 c"
    by (cases u) auto
  have len: "length h0 \<le> length h"
    using Cons.prems(2) by (rule take_length_le)
  have "c < length h0" using c0 by (simp add: numbers_at_def)
  then have "h ! c = h0 ! c" using Cons.prems(2) by (simp add: take_nth_same)
  with c0 len have "numbers_at h c" by (simp add: numbers_at_def)
  from deepcopy_unit[OF this, of n memo] obtain v h1 memo1 where
    dc: "deepcopy (Suc n) h memo (VRef c) = Some (v, h1, memo1)" by blast
  from deepcopy_frame[OF dc len Cons.prems(4)]
  have f: "take (length h0) h1 = take (length h0) h" "\<forall>(a, b) \<in> set memo1. length h0 \<le> b"
    by auto
  have "take (length h0) (h1[b := h1 ! b @ [v]]) = h0"
    using f(1) Cons.prems(2,3) by simp
  from Cons.IH[OF _ this Cons.prems(3) f(2)] Cons.prems(1)
  obtain h' memo' where "deepcopy_list (Suc n) (h1[b := h1 ! b @ [v]]) memo1 b us = Some (h', memo')"
    by auto
  with dc u show ?case by simp
qed

lemma tabular_extend:
  assumes "tabular h0 x" and "take (length h0) h = h0"
  shows "tabular h x"
proof -
  obtain a where x: "x = VRef a" and a: "a < length h0"
    and us: "list_all (\<lambda>u. case u of VRef c \<Rightarrow> numbers_at h0 c | _ \<Rightarrow> False) (h0 ! a)"
    using assms(1) by (cases x) auto
  have len: "length h0 \<le> length h"
    using assms(2) by (rule take_length_le)
  have same: "c < length h0 \<Longrightarrow> h ! c = h0 ! c" for c
    using assms(2) by (simp add: take_nth_same)
  have num: "numbers_at h0 c \<Longrightarrow> numbers_at h c" for c
    using same[of c] len by (auto simp: numbers_at_def)
  have "list_all (\<lambda>u. case u of VRef c \<Rightarrow> numbers_at h c | _ \<Rightarrow> False) (h0 ! a)"
    using us num by (auto simp: list_all_iff split: val.splits)
  then show ?thesis using x a len same[OF a] by simp
qed

lemma convert_x_at_returns:
  assumes "tabular h x"
  shows "\<exists>r h'. convert_x_at (Suc (Suc n)) h x = Some (r, h')"
proof -
  obtain a where x: "x = VRef a" and a: "a < length h"
    and us: "list_all (\<lambda>u. case u of VRef c \<Rightarrow> numbers_at h c | _ \<Rightarrow> False) (h ! a)"
    using assms by (cases x) auto
  have "take (length h) (h @ [[]]) = h" by simp
  from deepcopy_list_units[OF us this, of "length h" "[(a, length h)]" n]
  obtain h' memo' where
    "deepcopy_list (Suc n) (h @ [[]]) [(a, length h)] (length h) (h ! a) = Some (h', memo')"
    by auto
  then have "deepcopy (Suc (Suc n)) h [] x = Some (VRef (length h), h', memo')"
    using x a by simp
  then show ?thesis
    by (auto simp: convert_x_at_def split: sum.splits)
qed

lemma convert_samples_at_returns:
  assumes "list_all (tabular h0) X" and "take (length h0) h = h0"
  shows "\<exists>r h'. convert_samples_at (Suc (Suc n)) h X = Some (r, h')"
  using assms
proof (induction X arbitrary: h)
  case Nil
  then show ?case by simp
next
  case (Cons x X)
  have len: "length h0 \<le> length h"
    using Cons.prems(2) by (rule take_length_le)
  have "tabular h x" using Cons.prems by (auto intro: tabular_extend)
  from convert_x_at_returns[OF this, of n] obtain r1 h1 where
    cx: "convert_x_at (Suc (Suc n)) h x = Some (r1, h1)" by blast
  from convert_x_at_frame[OF cx len] Cons.prems(2)
  have "take (length h0) h1 = h0" by simp
  from Cons.IH[OF _ this] Cons.prems(1) obtain r2 h2 where
    "convert_samples_at (Suc (Suc n)) h1 X = Some (r2, h2)" by auto
  with cx show ?case by (cases r1; cases r2) auto
qed

text \<open>For samples of that shape the deep copy needs two levels of nesting: with fuel
  two or more, \<^verbatim>\<open>_convert_X\<close> on the store returns or raises.\<close>

lemma convert_X_at_returns:
  assumes "list_all (tabular h) X"
  shows "\<exists>r h'. convert_X_at (Suc (Suc n)) m h X = Some (r, h')"
proof -
  from convert_samples_at_returns[OF assms, of h n] obtain r1 h1 where
    cs: "convert_samples_at (Suc (Suc n)) h X = Some (r1, h1)" by auto
  show ?thesis
  proof (cases r1)
    case (Inl e)
    with cs show ?thesis by (simp add: convert_X_at_def)
  next
    case (Inr segs)
    obtain r2 h2 where "encode_all_at m h1 segs = (r2, h2)"
      by (cases "encode_all_at m h1 segs") auto
    with cs Inr show ?thesis by (cases r2) (auto simp: convert_X_at_def)
  qed
qed

section \<open>The two models of \<^verbatim>\<open>_convert_X\<close> agree\<close>

lemma number_of_float: "\<not> is_list_ref w \<Longrightarrow> is_float (number_of w) = is_float_val w"
  by (cases w) auto

lemma getitem0_unit:
  assumes "numbers_at h c"
  shows "getitem0 (read_unit h (VRef c)) = map_sum id number_of (getitem0_at h (VRef c))"
    and "\<And>w. getitem0_at h (VRef c) = Inr w \<Longrightarrow> \<not> is_list_ref w"
  using assms by (auto simp: read_unit_def numbers_at_def split: list.splits)

lemma convert_x_agree:
  assumes "tabular h x"
  shows "(\<forall>e h'. convert_x_at fuel h x = Some (Inl e, h') \<longrightarrow>
            h' = h \<and> convert_x (read_sample h x) = Inl e)
       \<and> (\<forall>c h'. convert_x_at fuel h x = Some (Inr c, h') \<longrightarrow>
            convert_x (read_sample h x) = Inr (read_sample h x)
            \<and> (\<exists>memo. deepcopy fuel h [] x = Some (c, h', memo)))"
proof -
  obtain a where x: "x = VRef a" and a: "a < length h"
    and us: "list_all (\<lambda>u. case u of VRef c \<Rightarrow> numbers_at h c | _ \<Rightarrow> False) (h ! a)"
    using assms by (cases x) auto
  show ?thesis
  proof (cases "h ! a")
    case Nil
    then show ?thesis using x a
      by (simp add: convert_x_at_def convert_x_def read_sample_def)
  next
    case (Cons u rest)
    with us obtain c where u: "u = VRef c" and c: "numbers_at h c"
      by (cases u) auto
    have g: "getitem0_at h x = Inr (VRef c)" using x a Cons u by simp
    have pg: "getitem0 (read_sample h x) = Inr (read_unit h (VRef c))"
      using x Cons u by (simp add: read_sample_def)
    have il: "is_list (read_unit h (VRef c))" by (simp add: read_unit_def)
    show ?thesis
    proof (cases "getitem0_at h (VRef c)")
      case (Inl e)
      then show ?thesis
        using g pg il getitem0_unit(1)[OF c]
        by (simp add: convert_x_at_def convert_x_def)
    next
      case (Inr w)
      have nw: "\<not> is_list_ref w" using getitem0_unit(2)[OF c Inr] .
      show ?thesis
        using g pg il getitem0_unit(1)[OF c] Inr number_of_float[OF nw]
        by (auto simp: convert_x_at_def convert_x_def split: option.splits)
    qed
  qed
qed

lemma deepcopy_list_numbers_eq:
  "list_all (\<lambda>w. \<not> is_list_ref w) es \<Longrightarrow> b < length h \<Longrightarrow>
   deepcopy_list n h memo b es = Some (h[b := h ! b @ es], memo)"
  by (induction es arbitrary: h) (auto simp: deepcopy_number)

lemma deepcopy_unit_eq:
  assumes "numbers_at h c"
  shows "deepcopy (Suc n) h memo (VRef c) =
           (case map_of memo c of
              Some c' \<Rightarrow> Some (VRef c', h, memo)
            | None \<Rightarrow> Some (VRef (length h), h @ [h ! c], (c, length h) # memo))"
proof -
  have c: "c < length h" and ns: "list_all (\<lambda>w. \<not> is_list_ref w) (h ! c)"
    using assms by (simp_all add: numbers_at_def)
  have "deepcopy_list n (h @ [[]]) ((c, length h) # memo) (length h) (h ! c)
          = Some ((h @ [[]])[length h := (h @ [[]]) ! length h @ h ! c], (c, length h) # memo)"
    using ns c by (intro deepcopy_list_numbers_eq) (simp_all add: nth_append)
  then show ?thesis using c by (simp add: nth_append split: option.splits)
qed

lemma deepcopy_unit_step:
  assumes c: "numbers_at h0 c"
      and pre: "take (length h0) h = h0" "b < length h"
      and memo: "\<forall>c2 c2'. map_of memo c2 = Some c2' \<and> c2 \<in> C \<longrightarrow>
                   b < c2' \<and> c2' < length h \<and> h ! c2' = h0 ! c2"
      and cC: "c \<in> C"
  shows "\<exists>cv h1 memo1. deepcopy (Suc n) h memo (VRef c) = Some (VRef cv, h1, memo1)
           \<and> b < cv \<and> cv < length h1 \<and> h1 ! cv = h0 ! c
           \<and> length h \<le> length h1 \<and> (\<forall>a < length h. h1 ! a = h ! a)
           \<and> (\<forall>c2 c2'. map_of memo1 c2 = Some c2' \<and> c2 \<in> C \<longrightarrow>
                   b < c2' \<and> c2' < length h1 \<and> h1 ! c2' = h0 ! c2)"
proof -
  have len: "length h0 \<le> length h" using pre(1) by (rule take_length_le)
  have c0: "c < length h0" using c by (simp add: numbers_at_def)
  have same: "h ! c = h0 ! c" using pre(1) c0 by (rule take_nth_same)
  have ch: "numbers_at h c" using c same len by (simp add: numbers_at_def)
  show ?thesis
  proof (cases "map_of memo c")
    case (Some c')
    then have "deepcopy (Suc n) h memo (VRef c) = Some (VRef c', h, memo)"
      using deepcopy_unit_eq[OF ch, of n memo] by simp
    moreover have "b < c' \<and> c' < length h \<and> h ! c' = h0 ! c"
      using memo Some cC by blast
    ultimately show ?thesis using memo by blast
  next
    case None
    then have dc: "deepcopy (Suc n) h memo (VRef c)
                 = Some (VRef (length h), h @ [h ! c], (c, length h) # memo)"
      using deepcopy_unit_eq[OF ch, of n memo] by simp
    have m1: "\<forall>c2 c2'. map_of ((c, length h) # memo) c2 = Some c2' \<and> c2 \<in> C \<longrightarrow>
                   b < c2' \<and> c2' < length (h @ [h ! c]) \<and> (h @ [h ! c]) ! c2' = h0 ! c2"
    proof (intro allI impI)
      fix c2 c2' assume a: "map_of ((c, length h) # memo) c2 = Some c2' \<and> c2 \<in> C"
      show "b < c2' \<and> c2' < length (h @ [h ! c]) \<and> (h @ [h ! c]) ! c2' = h0 ! c2"
      proof (cases "c2 = c")
        case True
        with a have "c2' = length h" by simp
        with True pre(2) same show ?thesis by simp
      next
        case False
        with a have "map_of memo c2 = Some c2' \<and> c2 \<in> C" by simp
        with memo have "b < c2' \<and> c2' < length h \<and> h ! c2' = h0 ! c2" by blast
        then show ?thesis by (simp add: nth_append)
      qed
    qed
    have "b < length h \<and> length h < length (h @ [h ! c]) \<and> (h @ [h ! c]) ! length h = h0 ! c
           \<and> length h \<le> length (h @ [h ! c]) \<and> (\<forall>a < length h. (h @ [h ! c]) ! a = h ! a)"
      using pre(2) same by (simp add: nth_append)
    with dc m1 show ?thesis by blast
  qed
qed

lemma deepcopy_list_units_eq:
  assumes "\<forall>u \<in> set us. \<exists>c \<in> C. u = VRef c" and "\<forall>c \<in> C. numbers_at h0 c"
      and "take (length h0) h = h0" and "length h0 \<le> b" and "b < length h"
      and "\<forall>c2 c2'. map_of memo c2 = Some c2' \<and> c2 \<in> C \<longrightarrow>
                   b < c2' \<and> c2' < length h \<and> h ! c2' = h0 ! c2"
  shows "\<exists>h' memo' vs. deepcopy_list (Suc n) h memo b us = Some (h', memo')
           \<and> take (length h0) h' = h0 \<and> length h \<le> length h' \<and> h' ! b = h ! b @ vs
           \<and> list_all2 (\<lambda>u v. \<exists>c c'. u = VRef c \<and> v = VRef c' \<and> b < c' \<and> c' < length h'
                                 \<and> h' ! c' = h0 ! c) us vs
           \<and> (\<forall>a < length h. a \<noteq> b \<longrightarrow> h' ! a = h ! a)"
  using assms
proof (induction us arbitrary: h memo)
  case Nil
  then show ?case by simp
next
  case (Cons u us)
  from Cons.prems(1) obtain c where u: "u = VRef c" and cC: "c \<in> C" by auto
  have c0: "numbers_at h0 c" using Cons.prems(2) cC by blast
  from deepcopy_unit_step[OF c0 Cons.prems(3,5,6) cC, of n]
  obtain cv h1 memo1 where dc: "deepcopy (Suc n) h memo (VRef c) = Some (VRef cv, h1, memo1)"
    and cv: "b < cv" "cv < length h1" "h1 ! cv = h0 ! c"
    and l1: "length h \<le> length h1" and same1: "\<forall>a < length h. h1 ! a = h ! a"
    and m1: "\<forall>c2 c2'. map_of memo1 c2 = Some c2' \<and> c2 \<in> C \<longrightarrow>
                   b < c2' \<and> c2' < length h1 \<and> h1 ! c2' = h0 ! c2"
    by blast
  let ?h2 = "h1[b := h1 ! b @ [VRef cv]]"
  have len0: "length h0 \<le> length h" using Cons.prems(3) by (rule take_length_le)
  have t1: "take (length h0) h1 = h0"
  proof (rule nth_equalityI)
    show "length (take (length h0) h1) = length h0" using len0 l1 by simp
  next
    fix i assume "i < length (take (length h0) h1)"
    then have i: "i < length h0" by simp
    then have "h1 ! i = h ! i" using same1 len0 by simp
    also have "h ! i = h0 ! i" using Cons.prems(3) i by (rule take_nth_same)
    finally show "take (length h0) h1 ! i = h0 ! i" using i by simp
  qed
  have t2: "take (length h0) ?h2 = h0" using t1 Cons.prems(4) by simp
  have b2: "b < length ?h2" using Cons.prems(5) l1 by simp
  have m2: "\<forall>c2 c2'. map_of memo1 c2 = Some c2' \<and> c2 \<in> C \<longrightarrow>
                   b < c2' \<and> c2' < length ?h2 \<and> ?h2 ! c2' = h0 ! c2"
  proof (intro allI impI)
    fix c2 c2' assume "map_of memo1 c2 = Some c2' \<and> c2 \<in> C"
    with m1 have f: "b < c2'" "c2' < length h1" "h1 ! c2' = h0 ! c2" by blast+
    then have "?h2 ! c2' = h1 ! c2'" by simp
    with f show "b < c2' \<and> c2' < length ?h2 \<and> ?h2 ! c2' = h0 ! c2" by simp
  qed
  have us: "\<forall>u \<in> set us. \<exists>c \<in> C. u = VRef c" using Cons.prems(1) by simp
  from Cons.IH[OF us Cons.prems(2) t2 Cons.prems(4) b2 m2]
  obtain h' memo' vs where dl: "deepcopy_list (Suc n) ?h2 memo1 b us = Some (h', memo')"
    and t': "take (length h0) h' = h0" and l': "length ?h2 \<le> length h'"
    and hb: "h' ! b = ?h2 ! b @ vs"
    and rel: "list_all2 (\<lambda>u v. \<exists>c c'. u = VRef c \<and> v = VRef c' \<and> b < c' \<and> c' < length h'
                                 \<and> h' ! c' = h0 ! c) us vs"
    and same': "\<forall>a < length ?h2. a \<noteq> b \<longrightarrow> h' ! a = ?h2 ! a"
    by blast
  have run: "deepcopy_list (Suc n) h memo b (u # us) = Some (h', memo')"
    using dc dl u by simp
  have bh1: "b < length h1" using Cons.prems(5) l1 by simp
  have hb': "h' ! b = h ! b @ (VRef cv # vs)"
    using hb bh1 same1 Cons.prems(5) by simp
  have "h' ! cv = ?h2 ! cv" using same' cv by simp
  then have hcv: "h' ! cv = h0 ! c" using cv by simp
  have cvl: "cv < length h'" using cv(2) l' by simp
  have rel': "list_all2 (\<lambda>u v. \<exists>c c'. u = VRef c \<and> v = VRef c' \<and> b < c' \<and> c' < length h'
                                 \<and> h' ! c' = h0 ! c) (u # us) (VRef cv # vs)"
    using rel u cv(1) cvl hcv by simp
  have same: "\<forall>a < length h. a \<noteq> b \<longrightarrow> h' ! a = h ! a"
  proof (intro allI impI)
    fix a assume a: "a < length h" and ab: "a \<noteq> b"
    then have "h' ! a = ?h2 ! a" using same' l1 by simp
    also have "?h2 ! a = h1 ! a" using ab by simp
    also have "h1 ! a = h ! a" using same1 a by simp
    finally show "h' ! a = h ! a" .
  qed
  have "length h \<le> length h'" using l1 l' by simp
  with run t' hb' rel' same show ?case by blast
qed

lemma list_all2_map_eq: "list_all2 (\<lambda>u v. f u = g v) us vs \<Longrightarrow> map g vs = map f us"
  by (induction us vs rule: list_all2_induct) auto

lemma deepcopy_sample:
  assumes "tabular h0 x"
  shows "\<exists>h' memo'. deepcopy (Suc (Suc n)) h0 [] x = Some (VRef (length h0), h', memo')
     \<and> take (length h0) h' = h0 \<and> length h0 < length h'
     \<and> list_all (\<lambda>u. case u of VRef c \<Rightarrow> length h0 < c \<and> numbers_at h' c | _ \<Rightarrow> False)
          (h' ! length h0)
     \<and> read_sample h' (VRef (length h0)) = read_sample h0 x"
proof -
  obtain a where x: "x = VRef a" and a: "a < length h0"
    and us: "list_all (\<lambda>u. case u of VRef c \<Rightarrow> numbers_at h0 c | _ \<Rightarrow> False) (h0 ! a)"
    using assms by (cases x) auto
  let ?C = "{c. VRef c \<in> set (h0 ! a)}"
  let ?b = "length h0"
  have ur: "\<exists>c. u = VRef c \<and> numbers_at h0 c" if "u \<in> set (h0 ! a)" for u
    using us that by (cases u) (auto simp: list_all_iff)
  have 1: "\<forall>u \<in> set (h0 ! a). \<exists>c \<in> ?C. u = VRef c"
    using ur by blast
  have 2: "\<forall>c \<in> ?C. numbers_at h0 c"
    using ur by blast
  have 3: "take (length h0) (h0 @ [[]]) = h0" by simp
  have 5: "?b < length (h0 @ [[]])" by simp
  have "a \<notin> ?C"
  proof
    assume "a \<in> ?C"
    then have "VRef a \<in> set (h0 ! a)" "numbers_at h0 a" using 2 by auto
    then show False by (auto simp: numbers_at_def list_all_iff)
  qed
  then have 6: "\<forall>c2 c2'. map_of [(a, ?b)] c2 = Some c2' \<and> c2 \<in> ?C \<longrightarrow>
                   ?b < c2' \<and> c2' < length (h0 @ [[]]) \<and> (h0 @ [[]]) ! c2' = h0 ! c2"
    by (auto split: if_splits)
  from deepcopy_list_units_eq[OF 1 2 3 order_refl 5 6, of n]
  obtain h' memo' vs where
    dl: "deepcopy_list (Suc n) (h0 @ [[]]) [(a, ?b)] ?b (h0 ! a) = Some (h', memo')"
    and t: "take ?b h' = h0" and l: "length (h0 @ [[]]) \<le> length h'"
    and hb: "h' ! ?b = (h0 @ [[]]) ! ?b @ vs"
    and rel: "list_all2 (\<lambda>u v. \<exists>c c'. u = VRef c \<and> v = VRef c' \<and> ?b < c' \<and> c' < length h'
                                 \<and> h' ! c' = h0 ! c) (h0 ! a) vs"
    by blast
  have dc: "deepcopy (Suc (Suc n)) h0 [] x = Some (VRef ?b, h', memo')"
    using x a dl by simp
  have hb': "h' ! ?b = vs" using hb by simp
  have num: "\<And>c c'. VRef c \<in> set (h0 ! a) \<Longrightarrow> c' < length h' \<Longrightarrow> h' ! c' = h0 ! c
               \<Longrightarrow> numbers_at h' c'"
    using 2 by (auto simp: numbers_at_def)
  have la: "list_all (\<lambda>u. case u of VRef c \<Rightarrow> ?b < c \<and> numbers_at h' c | _ \<Rightarrow> False) vs"
    using rel num
    by (auto simp: list_all_iff list_all2_conv_all_nth in_set_conv_nth) (metis nth_mem val.simps(12))
  have "list_all2 (\<lambda>u v. read_unit h0 u = read_unit h' v) (h0 ! a) vs"
    using rel by (rule list_all2_mono) (auto simp: read_unit_def)
  then have "map (read_unit h') vs = map (read_unit h0) (h0 ! a)"
    by (rule list_all2_map_eq)
  then have rd: "read_sample h' (VRef ?b) = read_sample h0 x"
    by (simp add: read_sample_def x hb')
  have "?b < length h'" using l by simp
  with dc t la rd hb' show ?thesis by auto
qed

lemma read_sample_take:
  assumes "b < length h'" and "\<forall>u \<in> set (h' ! b). \<exists>c. u = VRef c \<and> c < length h'"
      and "take (length h') h1 = h'"
  shows "read_sample h1 (VRef b) = read_sample h' (VRef b)"
proof -
  have hb: "h1 ! b = h' ! b" using assms(3,1) by (rule take_nth_same)
  have "read_unit h1 u = read_unit h' u" if "u \<in> set (h' ! b)" for u
  proof -
    from assms(2) that obtain c where u: "u = VRef c" and c: "c < length h'" by blast
    have "h1 ! c = h' ! c" using assms(3) c by (rule take_nth_same)
    then show ?thesis by (simp add: read_unit_def u)
  qed
  then show ?thesis by (simp add: read_sample_def hb)
qed

lemma tabular_units:
  assumes "tabular h x"
  shows "\<exists>a. x = VRef a \<and> a < length h \<and> (\<forall>u \<in> set (h ! a). \<exists>c. u = VRef c \<and> c < length h)"
proof -
  obtain a where x: "x = VRef a" and a: "a < length h"
    and us: "list_all (\<lambda>u. case u of VRef c \<Rightarrow> numbers_at h c | _ \<Rightarrow> False) (h ! a)"
    using assms by (cases x) auto
  have "\<exists>c. u = VRef c \<and> c < length h" if "u \<in> set (h ! a)" for u
    using us that by (cases u) (auto simp: list_all_iff numbers_at_def)
  with x a show ?thesis by blast
qed

lemma read_sample_extend:
  assumes "tabular h0 x" and "take (length h0) h = h0"
  shows "read_sample h x = read_sample h0 x"
  using tabular_units[OF assms(1)] read_sample_take[OF _ _ assms(2)] by blast

lemma take_take_le: "take (length h) h' = h \<Longrightarrow> take (length h0) h = h0 \<Longrightarrow> take (length h0) h' = h0"
proof -
  assume a: "take (length h) h' = h" and b: "take (length h0) h = h0"
  have le: "length h0 \<le> length h" using b by (rule take_length_le)
  have "take (length h0) (take (length h) h') = take (length h0) h'"
    using le by (simp add: min_def)
  with a b show ?thesis by simp
qed

lemma convert_samples_agree:
  assumes "list_all (tabular h0) X" and "take (length h0) h = h0"
      and "convert_samples_at (Suc (Suc n)) h X = Some (r, h1)"
  shows "take (length h0) h1 = h0 \<and> take (length h) h1 = h
       \<and> (\<forall>s e. r = Inl (WrongInputFormatAt s e) \<longrightarrow>
             convert_samples (map (read_sample h0) X) = Inl (WrongInputFormat (read_sample h0 s) e))
       \<and> (\<forall>e. r \<noteq> Inl (Raised e))
       \<and> (\<forall>cs. r = Inr cs \<longrightarrow>
             convert_samples (map (read_sample h0) X) = Inr (map (read_sample h0) X)
             \<and> map (read_sample h1) cs = map (read_sample h0) X
             \<and> copies_from (length h) h1 cs)"
  using assms
proof (induction X arbitrary: h r h1)
  case Nil
  then show ?case by (auto simp: copies_from_def)
next
  case (Cons x X)
  have tx0: "tabular h0 x" and tX: "list_all (tabular h0) X" using Cons.prems(1) by simp_all
  have tx: "tabular h x" using tx0 Cons.prems(2) by (rule tabular_extend)
  have rx: "read_sample h x = read_sample h0 x" using tx0 Cons.prems(2) by (rule read_sample_extend)
  from Cons.prems(3) obtain r1 h' where cx: "convert_x_at (Suc (Suc n)) h x = Some (r1, h')"
    by (auto split: option.splits)
  note agree = convert_x_agree[OF tx, of "Suc (Suc n)"]
  show ?case
  proof (cases r1)
    case (Inl e)
    with cx agree have hh: "h' = h" and px: "convert_x (read_sample h x) = Inl e" by blast+
    from Cons.prems(3) cx Inl have res: "r = Inl (WrongInputFormatAt x e)" "h1 = h'" by simp_all
    show ?thesis using res hh px rx Cons.prems(2) by simp
  next
    case (Inr c)
    with cx agree have px: "convert_x (read_sample h x) = Inr (read_sample h x)"
      and "\<exists>memo. deepcopy (Suc (Suc n)) h [] x = Some (c, h', memo)" by blast+
    then obtain memo where dc: "deepcopy (Suc (Suc n)) h [] x = Some (c, h', memo)" by blast
    from deepcopy_sample[OF tx, of n] dc
    have c: "c = VRef (length h)" and th: "take (length h) h' = h" and lh: "length h < length h'"
      and units: "list_all (\<lambda>u. case u of VRef c \<Rightarrow> length h < c \<and> numbers_at h' c | _ \<Rightarrow> False)
                    (h' ! length h)"
      and rc: "read_sample h' (VRef (length h)) = read_sample h x"
      by auto
    have unit: "\<exists>c'. u = VRef c' \<and> length h < c' \<and> numbers_at h' c'" if "u \<in> set (h' ! length h)" for u
      using units that by (cases u) (auto simp: list_all_iff)
    from Cons.prems(3) cx Inr obtain r2 where
      rest: "convert_samples_at (Suc (Suc n)) h' X = Some (r2, h1)"
      and r: "r = (case r2 of Inl e \<Rightarrow> Inl e | Inr cs \<Rightarrow> Inr (c # cs))"
      by (auto split: option.splits sum.splits)
    have pre': "take (length h0) h' = h0" using th Cons.prems(2) by (rule take_take_le)
    from Cons.IH[OF tX pre' rest]
    have t0: "take (length h0) h1 = h0" and t': "take (length h') h1 = h'"
      and wf: "\<forall>s e. r2 = Inl (WrongInputFormatAt s e) \<longrightarrow>
             convert_samples (map (read_sample h0) X) = Inl (WrongInputFormat (read_sample h0 s) e)"
      and nr: "\<forall>e. r2 \<noteq> Inl (Raised e)"
      and ok: "\<forall>cs. r2 = Inr cs \<longrightarrow>
             convert_samples (map (read_sample h0) X) = Inr (map (read_sample h0) X)
             \<and> map (read_sample h1) cs = map (read_sample h0) X
             \<and> copies_from (length h') h1 cs"
      by blast+
    have t: "take (length h) h1 = h" using t' th by (rule take_take_le)
    have l1: "length h' \<le> length h1" using t' by (rule take_length_le)
    have phd: "convert_x (read_sample h0 x) = Inr (read_sample h0 x)" using px rx by simp
    show ?thesis
    proof (cases r2)
      case (Inl e2)
      with r have "r = Inl e2" by simp
      with Inl wf nr t0 t phd show ?thesis by (cases e2) auto
    next
      case (Inr cs)
      with r have res: "r = Inr (c # cs)" by simp
      from ok Inr have p: "convert_samples (map (read_sample h0) X) = Inr (map (read_sample h0) X)"
        and m: "map (read_sample h1) cs = map (read_sample h0) X"
        and cf: "copies_from (length h') h1 cs" by blast+
      have "\<forall>u \<in> set (h' ! length h). \<exists>c'. u = VRef c' \<and> c' < length h'"
        using unit by (auto simp: numbers_at_def)
      from read_sample_take[OF lh this t'] rc rx c
      have rh: "read_sample h1 c = read_sample h0 x" by simp
      have hb: "h1 ! length h = h' ! length h" using t' lh by (rule take_nth_same)
      have later: "\<exists>b. s = VRef b \<and> length h' \<le> b" if "s \<in> set cs" for s
        using cf that by (auto simp: copies_from_def)
      have notin: "c \<notin> set cs" using later lh c by fastforce
      have head: "\<exists>c'. u = VRef c' \<and> length h \<le> c' \<and> VRef c' \<notin> set (c # cs) \<and> numbers_at h1 c'"
        if "u \<in> set (h1 ! length h)" for u
      proof -
        from that hb unit obtain c' where u: "u = VRef c'" and c': "length h < c'"
          and n': "numbers_at h' c'" by auto
        have cl: "c' < length h'" using n' by (simp add: numbers_at_def)
        have "h1 ! c' = h' ! c'" using t' cl by (rule take_nth_same)
        then have n1: "numbers_at h1 c'" using n' l1 by (simp add: numbers_at_def)
        have "VRef c' \<notin> set cs" using later cl by fastforce
        with u c' n1 c show ?thesis by auto
      qed
      have tail: "\<exists>b. s = VRef b \<and> length h \<le> b \<and> b < length h1 \<and>
         (\<forall>u \<in> set (h1 ! b). \<exists>c'. u = VRef c' \<and> length h \<le> c' \<and> VRef c' \<notin> set (c # cs)
              \<and> numbers_at h1 c')" if "s \<in> set cs" for s
      proof -
        from cf that obtain b where s: "s = VRef b" "length h' \<le> b" "b < length h1"
          and us: "\<forall>u \<in> set (h1 ! b). \<exists>c'. u = VRef c' \<and> length h' \<le> c' \<and> VRef c' \<notin> set cs
                      \<and> numbers_at h1 c'"
          by (auto simp: copies_from_def)
        have "\<exists>c'. u = VRef c' \<and> length h \<le> c' \<and> VRef c' \<notin> set (c # cs) \<and> numbers_at h1 c'"
          if "u \<in> set (h1 ! b)" for u
          using us that lh c by fastforce
        with s lh show ?thesis by auto
      qed
      have "copies_from (length h) h1 (c # cs)"
        unfolding copies_from_def
      proof (intro conjI ballI)
        show "distinct (c # cs)" using notin cf by (simp add: copies_from_def)
      next
        fix s assume "s \<in> set (c # cs)"
        then consider "s = c" | "s \<in> set cs" by auto
        then show "\<exists>b. s = VRef b \<and> length h \<le> b \<and> b < length h1 \<and>
           (\<forall>u \<in> set (h1 ! b). \<exists>ca. u = VRef ca \<and> length h \<le> ca \<and> VRef ca \<notin> set (c # cs)
              \<and> numbers_at h1 ca)"
        proof cases
          case 1
          then show ?thesis using c lh l1 head by auto
        next
          case 2
          then show ?thesis using tail by blast
        qed
      qed
      with res p m rh phd t0 t show ?thesis by simp
    qed
  qed
qed

lemma append_units_agree:
  assumes "\<forall>u \<in> set us. len_at h u = py_len (R u)"
  shows "append_units_at mul h us (ivals, imask) =
           (case append_units mul (map R us) (pvals, imask) of
              Inl e \<Rightarrow> Inl e
            | Inr (pv, pm) \<Rightarrow> Inr (ivals @ us, pm))"
  using assms
proof (induction us arbitrary: ivals pvals imask)
  case Nil
  then show ?case by simp
next
  case (Cons u us)
  have l: "len_at h u = py_len (R u)" using Cons.prems by simp
  show ?case
  proof (cases "py_len (R u)")
    case (Inl e)
    with l show ?thesis by simp
  next
    case (Inr k)
    show ?thesis
    proof (cases "k = mul")
      case False
      with l Inr show ?thesis by simp
    next
      case True
      have "append_units_at mul h us (ivals @ [u], imask @ [1]) =
           (case append_units mul (map R us) (pvals @ [R u], imask @ [1]) of
              Inl e \<Rightarrow> Inl e
            | Inr (pv, pm) \<Rightarrow> Inr ((ivals @ [u]) @ us, pm))"
        using Cons.IH[of "ivals @ [u]" "imask @ [1]" "pvals @ [R u]"] Cons.prems by simp
      with l Inr True show ?thesis by (auto split: sum.splits)
    qed
  qed
qed

lemma padding_at_eq:
  "padding_at k mul h (ivals, imask) =
     (h @ replicate k (replicate (nat mul) (VInt 0)),
      ivals @ map VRef [length h..<length h + k],
      imask @ replicate k 0)"
proof (induction k arbitrary: h ivals imask)
  case 0
  then show ?case by simp
next
  case (Suc k)
  have "[length h..<length h + Suc k] = length h # [Suc (length h)..<Suc (length h) + k]"
    by (simp add: upt_conv_Cons)
  then show ?case
    using Suc.IH[of "h @ [replicate (nat mul) (VInt 0)]" "ivals @ [VRef (length h)]" "imask @ [0]"]
    by (simp add: replicate_app_Cons_same del: upt_Suc)
qed

lemma truncate_segments_map:
  "truncate_segments (map f xs) limit tm = map f (truncate_segments xs limit tm)"
  by (cases tm) (simp_all add: truncate_segments_def take_map drop_map)

lemma truncate_segments_subset:
  "set (truncate_segments xs limit tm) \<subseteq> set xs"
  by (cases tm) (auto simp: truncate_segments_def dest: in_set_takeD in_set_dropD)

lemma map_const_replicate: "\<forall>x \<in> set xs. f x = c \<Longrightarrow> map f xs = replicate (length xs) c"
  by (induction xs) auto

lemma encode_segments_agree:
  assumes b: "b < length h"
      and units: "\<forall>u \<in> set (h ! b). \<exists>c. u = VRef c \<and> c \<noteq> b \<and> numbers_at h c"
      and run: "encode_segments_at m h (VRef b) = (r, h')"
  shows "length h \<le> length h' \<and> (\<forall>a < length h. a \<noteq> b \<longrightarrow> h' ! a = h ! a)
       \<and> (\<forall>e. r = Inl e \<longrightarrow> encode_segments m (read_sample h (VRef b)) = Inl e)
       \<and> (\<forall>vs ms. r = Inr (vs, ms) \<longrightarrow>
            encode_segments m (read_sample h (VRef b)) = Inr (map (read_unit h') vs, ms)
            \<and> (\<forall>v \<in> set vs. \<exists>c. v = VRef c \<and> c < length h'
                    \<and> (v \<in> set (h ! b) \<or> length h \<le> c)))"
proof -
  let ?us = "truncate_segments (h ! b) (max_seq_length m - 1) (truncate_method m)"
  let ?h1 = "h[b := ?us]"
  let ?R = "read_unit h"
  let ?mul = "max_unit_length m"
  have sub: "set ?us \<subseteq> set (h ! b)" by (rule truncate_segments_subset)
  have hb: "?h1 ! b = ?us" using b by simp
  have unit: "\<exists>c. u = VRef c \<and> c \<noteq> b \<and> c < length h \<and> ?h1 ! c = h ! c" if "u \<in> set ?us" for u
    using units sub that by (fastforce simp: numbers_at_def)
  have lens: "\<forall>u \<in> set ?us. len_at ?h1 u = py_len (?R u)"
  proof
    fix u assume "u \<in> set ?us"
    from unit[OF this] obtain c where "u = VRef c" "c < length h" "?h1 ! c = h ! c" by blast
    then show "len_at ?h1 u = py_len (?R u)" by (simp add: read_unit_def)
  qed
  note au = append_units_agree[OF lens, of ?mul "[]" "[]" "[]"]
  have pure: "encode_segments m (read_sample h (VRef b)) =
     (case append_units ?mul (map ?R ?us) ([], []) of
        Inl e \<Rightarrow> Inl e
      | Inr (pv, pm) \<Rightarrow>
          Inr (padding (nat (max_seq_length m - 1 - int (length pv))) ?mul (pv, pm @ [1])))"
    by (simp add: encode_segments_def read_sample_def truncate_segments_map)
  have same1: "\<forall>a < length h. a \<noteq> b \<longrightarrow> ?h1 ! a = h ! a" by simp
  show ?thesis
  proof (cases "append_units ?mul (map ?R ?us) ([], [])")
    case (Inl e)
    then have "append_units_at ?mul ?h1 ?us ([], []) = Inl e" using au by simp
    then have "r = Inl e" "h' = ?h1"
      using run b hb by (simp_all add: encode_segments_at_def Let_def)
    with pure Inl show ?thesis by simp
  next
    case (Inr p)
    obtain pv pm where p: "p = (pv, pm)" by (cases p)
    from append_units_Inr[OF Inr]
    have "list_all (\<lambda>u. py_len u = Inr ?mul) (map ?R ?us)" .
    from append_units_ok[OF this, of "[]" "[]"] Inr p
    have pv: "pv = map ?R ?us" and pm: "pm = replicate (length ?us) 1" by simp_all
    let ?k = "nat (max_seq_length m - 1 - int (length ?us))"
    have st: "append_units_at ?mul ?h1 ?us ([], []) = Inr (?us, pm)"
      using au Inr p by simp
    let ?h2 = "?h1 @ replicate ?k (replicate (nat ?mul) (VInt 0))"
    let ?vs = "?us @ map VRef [length ?h1..<length ?h1 + ?k]"
    have res: "r = Inr (?vs, pm @ [1] @ replicate ?k 0)" "h' = ?h2"
      using run b hb st by (simp_all add: encode_segments_at_def Let_def padding_at_eq)
    have r1: "map (read_unit ?h2) ?us = map ?R ?us"
    proof (rule map_cong[OF refl])
      fix u assume "u \<in> set ?us"
      from unit[OF this] obtain c where u: "u = VRef c" and c: "c < length h" "?h1 ! c = h ! c"
        by blast
      then have "?h2 ! c = h ! c" by (simp add: nth_append)
      then show "read_unit ?h2 u = ?R u" by (simp add: read_unit_def u)
    qed
    have "\<forall>a \<in> set [length ?h1..<length ?h1 + ?k]. read_unit ?h2 (VRef a) = zero_row ?mul"
      by (auto simp: read_unit_def zero_row_def nth_append)
    then have r2: "map (read_unit ?h2) (map VRef [length ?h1..<length ?h1 + ?k])
                     = replicate ?k (zero_row ?mul)"
      using map_const_replicate[of "[length ?h1..<length ?h1 + ?k]" "\<lambda>a. read_unit ?h2 (VRef a)"
          "zero_row ?mul"]
      by (simp add: comp_def)
    have pe: "encode_segments m (read_sample h (VRef b))
                = Inr (map ?R ?us @ replicate ?k (zero_row ?mul), pm @ [1] @ replicate ?k 0)"
      using pure Inr p pv by (simp add: padding_eq)
    have rows: "\<forall>v \<in> set ?vs. \<exists>c. v = VRef c \<and> c < length ?h2
                    \<and> (v \<in> set (h ! b) \<or> length h \<le> c)"
    proof
      fix v assume "v \<in> set ?vs"
      then consider "v \<in> set ?us" | "v \<in> set (map VRef [length ?h1..<length ?h1 + ?k])" by auto
      then show "\<exists>c. v = VRef c \<and> c < length ?h2 \<and> (v \<in> set (h ! b) \<or> length h \<le> c)"
      proof cases
        case 1
        from unit[OF 1] sub 1 show ?thesis by auto
      next
        case 2
        then show ?thesis by auto
      qed
    qed
    have frame: "\<forall>a < length h. a \<noteq> b \<longrightarrow> ?h2 ! a = h ! a"
      by (simp add: nth_append)
    show ?thesis
      using res pe r1 r2 rows frame by simp
  qed
qed

lemma encode_all_agree:
  assumes "copies_from N h cs" and "encode_all_at m h cs = (r, h')"
  shows "length h \<le> length h' \<and> (\<forall>a < length h. VRef a \<notin> set cs \<longrightarrow> h' ! a = h ! a)
       \<and> (\<forall>e. r = Inl e \<longrightarrow> encode_all m (map (read_sample h) cs) = Inl e)
       \<and> (\<forall>vss mss. r = Inr (vss, mss) \<longrightarrow>
            encode_all m (map (read_sample h) cs) = Inr (map (map (read_unit h')) vss, mss))"
  using assms
proof (induction cs arbitrary: h r h')
  case Nil
  then show ?case by auto
next
  case (Cons s cs)
  have "\<exists>b. s = VRef b \<and> N \<le> b \<and> b < length h \<and>
         (\<forall>u \<in> set (h ! b). \<exists>c. u = VRef c \<and> N \<le> c \<and> VRef c \<notin> set (s # cs) \<and> numbers_at h c)"
    using Cons.prems(1) list.set_intros(1)[of s cs] unfolding copies_from_def by blast
  then obtain b where s: "s = VRef b" and b: "b < length h"
    and us: "\<forall>u \<in> set (h ! b). \<exists>c. u = VRef c \<and> VRef c \<notin> set (s # cs) \<and> numbers_at h c"
    by blast
  have units: "\<forall>u \<in> set (h ! b). \<exists>c. u = VRef c \<and> c \<noteq> b \<and> numbers_at h c"
    using us s by auto
  obtain r1 h1 where es: "encode_segments_at m h s = (r1, h1)"
    by (cases "encode_segments_at m h s") auto
  from encode_segments_agree[OF b units es[unfolded s]]
  have l1: "length h \<le> length h1" and f1: "\<forall>a < length h. a \<noteq> b \<longrightarrow> h1 ! a = h ! a"
    and e1: "\<forall>e. r1 = Inl e \<longrightarrow> encode_segments m (read_sample h s) = Inl e"
    and v1: "\<forall>vs ms. r1 = Inr (vs, ms) \<longrightarrow>
            encode_segments m (read_sample h s) = Inr (map (read_unit h1) vs, ms)
            \<and> (\<forall>v \<in> set vs. \<exists>c. v = VRef c \<and> c < length h1
                    \<and> (v \<in> set (h ! b) \<or> length h \<le> c))"
    unfolding s by blast+
  show ?case
  proof (cases r1)
    case (Inl e)
    with Cons.prems(2) es have "r = Inl e" "h' = h1" by simp_all
    with Inl e1 l1 f1 s show ?thesis by auto
  next
    case (Inr p)
    obtain vs ms where p: "p = (vs, ms)" by (cases p)
    from v1 Inr p have pe: "encode_segments m (read_sample h s) = Inr (map (read_unit h1) vs, ms)"
      and rows: "\<forall>v \<in> set vs. \<exists>c. v = VRef c \<and> c < length h1
                    \<and> (v \<in> set (h ! b) \<or> length h \<le> c)" by blast+
    obtain r2 h2 where ea: "encode_all_at m h1 cs = (r2, h2)"
      by (cases "encode_all_at m h1 cs") auto
    have other: "\<exists>b'. s' = VRef b' \<and> b' \<noteq> b \<and> N \<le> b' \<and> b' < length h \<and>
        (\<forall>u \<in> set (h ! b'). \<exists>c. u = VRef c \<and> N \<le> c \<and> c \<noteq> b \<and> VRef c \<notin> set cs
             \<and> numbers_at h c)" if "s' \<in> set cs" for s'
    proof -
      have "\<exists>b'. s' = VRef b' \<and> N \<le> b' \<and> b' < length h \<and>
         (\<forall>u \<in> set (h ! b'). \<exists>c. u = VRef c \<and> N \<le> c \<and> VRef c \<notin> set (s # cs) \<and> numbers_at h c)"
        using Cons.prems(1) list.set_intros(2)[OF that, of s] unfolding copies_from_def by blast
      then obtain b' where b': "s' = VRef b'" "N \<le> b'" "b' < length h"
        and u': "\<forall>u \<in> set (h ! b'). \<exists>c. u = VRef c \<and> N \<le> c \<and> VRef c \<notin> set (s # cs)
                   \<and> numbers_at h c" by blast
      have "distinct (s # cs)" using Cons.prems(1) by (simp add: copies_from_def)
      then have "b' \<noteq> b" using that b'(1) s by auto
      moreover have "\<forall>u \<in> set (h ! b'). \<exists>c. u = VRef c \<and> N \<le> c \<and> c \<noteq> b \<and> VRef c \<notin> set cs
             \<and> numbers_at h c"
        using u' s by fastforce
      ultimately show ?thesis using b' by blast
    qed
    have keep: "numbers_at h1 c" if "numbers_at h c" "c \<noteq> b" for c
      using that f1 l1 by (auto simp: numbers_at_def)
    have cf1: "copies_from N h1 cs"
      unfolding copies_from_def
    proof (intro conjI ballI)
      show "distinct cs" using Cons.prems(1) by (simp add: copies_from_def)
    next
      fix s' assume "s' \<in> set cs"
      from other[OF this] obtain b' where b': "s' = VRef b'" "b' \<noteq> b" "N \<le> b'" "b' < length h"
        and us': "\<forall>u \<in> set (h ! b'). \<exists>c. u = VRef c \<and> N \<le> c \<and> c \<noteq> b \<and> VRef c \<notin> set cs
             \<and> numbers_at h c" by blast
      have "h1 ! b' = h ! b'" using f1 b' by simp
      with b' us' l1 keep
      show "\<exists>b. s' = VRef b \<and> N \<le> b \<and> b < length h1 \<and>
           (\<forall>u \<in> set (h1 ! b). \<exists>c. u = VRef c \<and> N \<le> c \<and> VRef c \<notin> set cs \<and> numbers_at h1 c)"
        by fastforce
    qed
    have rs: "read_sample h1 s' = read_sample h s'" if "s' \<in> set cs" for s'
    proof -
      from other[OF that] obtain b' where b': "s' = VRef b'" "b' \<noteq> b" "b' < length h"
        and us': "\<forall>u \<in> set (h ! b'). \<exists>c. u = VRef c \<and> N \<le> c \<and> c \<noteq> b \<and> VRef c \<notin> set cs
             \<and> numbers_at h c" by blast
      have hb': "h1 ! b' = h ! b'" using f1 b' by simp
      have "read_unit h1 u = read_unit h u" if "u \<in> set (h ! b')" for u
      proof -
        from us' that obtain c where "u = VRef c" "c \<noteq> b" "numbers_at h c" by blast
        then show ?thesis using f1 by (simp add: read_unit_def numbers_at_def)
      qed
      then show ?thesis by (simp add: read_sample_def b' hb')
    qed
    then have rsm: "map (read_sample h1) cs = map (read_sample h) cs" by simp
    from Cons.IH[OF cf1 ea]
    have l2: "length h1 \<le> length h2"
      and f2: "\<forall>a < length h1. VRef a \<notin> set cs \<longrightarrow> h2 ! a = h1 ! a"
      and e2: "\<forall>e. r2 = Inl e \<longrightarrow> encode_all m (map (read_sample h1) cs) = Inl e"
      and v2: "\<forall>vss mss. r2 = Inr (vss, mss) \<longrightarrow>
            encode_all m (map (read_sample h1) cs) = Inr (map (map (read_unit h2)) vss, mss)"
      by blast+
    have below: "\<exists>b'. s' = VRef b' \<and> b' < length h" if "s' \<in> set cs" for s'
      using other[OF that] by blast
    have keeprow: "read_unit h2 v = read_unit h1 v" if "v \<in> set vs" for v
    proof -
      from rows that obtain c where v: "v = VRef c" and c: "c < length h1"
        and d: "v \<in> set (h ! b) \<or> length h \<le> c" by blast
      have "VRef c \<notin> set cs"
      proof
        assume in_cs: "VRef c \<in> set cs"
        from d show False
        proof
          assume "v \<in> set (h ! b)"
          with us v have "VRef c \<notin> set (s # cs)" by auto
          with in_cs show False by simp
        next
          assume "length h \<le> c"
          with below[OF in_cs] show False by auto
        qed
      qed
      with f2 c have "h2 ! c = h1 ! c" by simp
      then show ?thesis by (simp add: read_unit_def v)
    qed
    then have rowmap: "map (read_unit h2) vs = map (read_unit h1) vs" by simp
    have frame: "\<forall>a < length h. VRef a \<notin> set (s # cs) \<longrightarrow> h2 ! a = h ! a"
    proof (intro allI impI)
      fix a assume a: "a < length h" and n: "VRef a \<notin> set (s # cs)"
      then have "a \<noteq> b" "VRef a \<notin> set cs" using s by auto
      then have "h2 ! a = h1 ! a" "h1 ! a = h ! a" using f2 f1 a l1 by simp_all
      then show "h2 ! a = h ! a" by simp
    qed
    have len: "length h \<le> length h2" using l1 l2 by simp
    show ?thesis
    proof (cases r2)
      case (Inl e)
      with Cons.prems(2) es Inr p ea have "r = Inl e" "h' = h2" by simp_all
      with Inl e2 pe rsm frame len show ?thesis by simp
    next
      case (Inr q)
      obtain vss mss where q: "q = (vss, mss)" by (cases q)
      with Cons.prems(2) es \<open>r1 = Inr p\<close> p ea Inr
      have "r = Inr (vs # vss, ms # mss)" "h' = h2" by simp_all
      moreover from v2 Inr q
      have "encode_all m (map (read_sample h1) cs) = Inr (map (map (read_unit h2)) vss, mss)"
        by blast
      ultimately show ?thesis using pe rsm rowmap frame len by simp
    qed
  qed
qed

text \<open>
  For a batch of samples of the specified shape, \<^verbatim>\<open>_convert_X\<close> on the store and
  \<^verbatim>\<open>_convert_X\<close> on nested values do the same: they raise the same exception, or they
  return the same mask and, read out of the final store, the same rows.
\<close>

lemma convert_X_models_agree:
  assumes "list_all (tabular h) X" and "convert_X_at (Suc (Suc n)) m h X = Some (r, h')"
  shows "(\<forall>s e. r = Inl (WrongInputFormatAt s e) \<longrightarrow>
            convert_X m (map (read_sample h) X) = Inl (WrongInputFormat (read_sample h s) e))
       \<and> (\<forall>e. r = Inl (Raised e) \<longrightarrow> convert_X m (map (read_sample h) X) = Inl e)
       \<and> (\<forall>vss mss. r = Inr (vss, mss) \<longrightarrow>
            convert_X m (map (read_sample h) X) = Inr (map (map (read_unit h')) vss, mss))"
proof -
  from assms(2) obtain r1 h1 where cs: "convert_samples_at (Suc (Suc n)) h X = Some (r1, h1)"
    by (auto simp: convert_X_at_def split: option.splits)
  have "take (length h) h = h" by simp
  from convert_samples_agree[OF assms(1) this cs]
  have wf: "\<forall>s e. r1 = Inl (WrongInputFormatAt s e) \<longrightarrow>
             convert_samples (map (read_sample h) X) = Inl (WrongInputFormat (read_sample h s) e)"
    and nr: "\<forall>e. r1 \<noteq> Inl (Raised e)"
    and ok: "\<forall>cs. r1 = Inr cs \<longrightarrow>
             convert_samples (map (read_sample h) X) = Inr (map (read_sample h) X)
             \<and> map (read_sample h1) cs = map (read_sample h) X
             \<and> copies_from (length h) h1 cs"
    by blast+
  show ?thesis
  proof (cases r1)
    case (Inl e)
    with assms(2) cs have "r = Inl e" by (simp add: convert_X_at_def)
    with Inl wf nr show ?thesis by (cases e) (auto simp: convert_X_def)
  next
    case (Inr segs)
    with ok have p: "convert_samples (map (read_sample h) X) = Inr (map (read_sample h) X)"
      and m: "map (read_sample h1) segs = map (read_sample h) X"
      and cf: "copies_from (length h) h1 segs" by blast+
    obtain r2 h2 where ea: "encode_all_at m h1 segs = (r2, h2)"
      by (cases "encode_all_at m h1 segs") auto
    from assms(2) cs Inr ea
    have res: "r = (case r2 of Inl e \<Rightarrow> Inl (Raised e) | Inr q \<Rightarrow> Inr q)" "h' = h2"
      by (cases r2; simp add: convert_X_at_def)+
    from encode_all_agree[OF cf ea]
    have e2: "\<forall>e. r2 = Inl e \<longrightarrow> encode_all m (map (read_sample h1) segs) = Inl e"
      and v2: "\<forall>vss mss. r2 = Inr (vss, mss) \<longrightarrow>
            encode_all m (map (read_sample h1) segs) = Inr (map (map (read_unit h2)) vss, mss)"
      by blast+
    show ?thesis
      using res e2 v2 p m by (cases r2) (auto simp: convert_X_def)
  qed
qed

end
